theory Spec2Isabelle
  imports Complex_Main "HOL-Library.Multiset"
begin

section \<open>File trees\<close>

text \<open>
  Both daemons work on directory trees through \<^verbatim>\<open>os.scandir\<close>. A directory is the
  list of its entries in the order \<^verbatim>\<open>os.scandir\<close> yields them. An entry is a regular
  file (name, \<^verbatim>\<open>st_mtime\<close>, \<^verbatim>\<open>st_ctime\<close>, content), a directory (name,
  \<^verbatim>\<open>st_mtime\<close>, entries) or something for which both \<^verbatim>\<open>is_file()\<close> and
  \<^verbatim>\<open>is_dir()\<close> are false (a socket, a dangling link). Time stamps are Python floats
  that are only compared and truncated, so they are rationals here. A path is the list
  of its components.
\<close>

type_synonym timestamp = rat
type_synonym path = "string list"

datatype entry =
    is_file: File (ename: string) (st_mtime: timestamp) (st_ctime: timestamp) (content: string)
  | is_dir: Dir (ename: string) (st_mtime: timestamp) (children: "entry list")
  | Other (ename: string)

lemma size_children_less:
  "d \<in> set items \<Longrightarrow> is_dir d \<Longrightarrow> size_list size (children d) < size_list size items"
proof (induction items)
  case Nil
  then show ?case by simp
next
  case (Cons a items)
  then show ?case by (cases d) auto
qed

section \<open>The change scan of the poller\<close>

text \<open>
  \<^verbatim>\<open>get_files_since_point_in_time(start_dir, point_in_time, newest_dir_count)\<close>:
  one pass over the entries collects the paths of the files whose
  \<^verbatim>\<open>max(st_mtime, st_ctime)\<close> exceeds the point in time, and the directories;
  the directories are sorted by \<^verbatim>\<open>st_mtime\<close> with \<^verbatim>\<open>reverse=True\<close> (Python's sort is
  stable, also when reversed, which is the stable ascending sort on the negated key);
  the loop over \<^verbatim>\<open>range(newest_dir_count)\<close> guarded by \<^verbatim>\<open>len(directories) > i\<close>
  recurses into the first \<^verbatim>\<open>newest_dir_count\<close> of them. The directory is given by its
  path and its entries.
\<close>

function get_files_since_point_in_time :: "path \<Rightarrow> entry list \<Rightarrow> timestamp \<Rightarrow> nat \<Rightarrow> path list" where
  "get_files_since_point_in_time start_dir items point_in_time newest_dir_count =
     (let all_files = map (\<lambda>item. start_dir @ [ename item])
                        (filter (\<lambda>item. is_file item \<and>
                                   max (st_mtime item) (st_ctime item) > point_in_time) items);
          directories = sort_key (\<lambda>d. - st_mtime d) (filter is_dir items)
      in all_files @
         concat (map (\<lambda>d. get_files_since_point_in_time (start_dir @ [ename d]) (children d)
                             point_in_time newest_dir_count)
                     (take newest_dir_count directories)))"
  by pat_completeness auto
termination
proof (relation "measure (\<lambda>(p, items, t, n). size_list size items)")
  show "wf (measure (\<lambda>(p, items, t, n). size_list size items))" by simp
next
  fix start_dir :: path and items :: "entry list" and point_in_time :: timestamp
    and newest_dir_count :: nat and x xa z
  assume "xa = sort_key (\<lambda>d. - st_mtime d) (filter is_dir items)"
    and "z \<in> set (take newest_dir_count xa)"
  then have "z \<in> set items \<and> is_dir z"
    by (auto dest!: in_set_takeD)
  then show "((start_dir @ [ename z], children z, point_in_time, newest_dir_count),
              (start_dir, items, point_in_time, newest_dir_count))
             \<in> measure (\<lambda>(p, items, t, n). size_list size items)"
    by (simp add: size_children_less)
qed

declare get_files_since_point_in_time.simps [simp del]

text \<open>
  The scan as the specification words it: the \<open>d\<close> most recently modified
  subdirectories of a level, and the files reachable through them.
\<close>

definition newest_dirs :: "nat \<Rightarrow> entry list \<Rightarrow> entry list" where
  "newest_dirs d items = take d (sort_key (\<lambda>e. - st_mtime e) (filter is_dir items))"

function reachable_files :: "path \<Rightarrow> entry list \<Rightarrow> nat \<Rightarrow> (path \<times> entry) list" where
  "reachable_files base_dir items d =
     map (\<lambda>f. (base_dir @ [ename f], f)) (filter is_file items) @
     concat (map (\<lambda>s. reachable_files (base_dir @ [ename s]) (children s) d) (newest_dirs d items))"
  by pat_completeness auto
termination
proof (relation "measure (\<lambda>(p, items, n). size_list size items)")
  show "wf (measure (\<lambda>(p, items, n). size_list size items))" by simp
next
  fix base_dir :: path and items :: "entry list" and d :: nat and x
  assume "x \<in> set (newest_dirs d items)"
  then have "x \<in> set items \<and> is_dir x"
    by (auto simp: newest_dirs_def dest!: in_set_takeD)
  then show "((base_dir @ [ename x], children x, d), (base_dir, items, d))
             \<in> measure (\<lambda>(p, items, n). size_list size items)"
    by (simp add: size_children_less)
qed

declare reachable_files.simps [simp del]

definition changed_since :: "timestamp \<Rightarrow> entry \<Rightarrow> bool" where
  "changed_since t f = (max (st_mtime f) (st_ctime f) > t)"

definition scan_example :: "entry list" where
  "scan_example =
     [File ''a'' 5 1 ''x'',
      Dir ''d1'' 3 [File ''b'' 9 9 ''y''],
      Dir ''d2'' 7 [File ''c'' 9 1 ''z'', File ''old'' 1 1 ''w''],
      Dir ''d3'' 1 [File ''e'' 9 9 ''v''],
      Other ''s'']"

text \<open>The loop over the chosen directories, named so that a run can be unfolded step by step.\<close>

definition scan_each :: "path \<Rightarrow> entry list \<Rightarrow> timestamp \<Rightarrow> nat \<Rightarrow> path list" where
  "scan_each base ds t d =
     concat (map (\<lambda>x. get_files_since_point_in_time (base @ [ename x]) (children x) t d) ds)"

section \<open>The forwarder's wait for the marker\<close>

text \<open>
  \<^verbatim>\<open>wait_until_no_copying_active(copy_active_file)\<close>: while the marker is a file, sleep one
  second and count it; once the count exceeds 30, log a warning and leave the loop.
  Whether the marker exists is the poller's doing: \<open>isfile k\<close> is the answer of
  \<^verbatim>\<open>os.path.isfile\<close> \<open>k\<close> seconds after the call began, and the \<open>k\<close>-th test happens
  after \<open>k\<close> sleeps of one second. The result records the seconds slept, the number of
  tests of the marker and whether the warning was logged.
\<close>

record wait_result =
  slept :: nat
  polls :: nat
  timed_out :: bool

function wait_loop :: "(nat \<Rightarrow> bool) \<Rightarrow> nat \<Rightarrow> nat \<Rightarrow> wait_result" where
  "wait_loop isfile max_time n =
     (if isfile max_time
      then (if max_time + 1 > 30
            then \<lparr>slept = max_time + 1, polls = n + 1, timed_out = True\<rparr>
            else wait_loop isfile (max_time + 1) (n + 1))
      else \<lparr>slept = max_time, polls = n + 1, timed_out = False\<rparr>)"
  by pat_completeness auto
termination
  by (relation "measure (\<lambda>(isfile, max_time, n). 31 - max_time)") auto

declare wait_loop.simps [simp del]

definition wait_until_no_copying_active :: "(nat \<Rightarrow> bool) \<Rightarrow> wait_result" where
  "wait_until_no_copying_active isfile = wait_loop isfile 0 0"

text \<open>A marker that is never cleared, and one cleared five seconds after the call.\<close>

definition always_present :: "nat \<Rightarrow> bool" where
  "always_present t = True"

definition cleared_after_5 :: "nat \<Rightarrow> bool" where
  "cleared_after_5 t = (t < 5)"

section \<open>The poller and its world\<close>

text \<open>
  The constants of \<^verbatim>\<open>copy_new_usb_files_v2.py\<close>. \<^verbatim>\<open>BASE_PATH\<close> is the directory of the
  script; the paths below it are kept relative to it.
\<close>

definition SOURCE_DIR :: path where
  "SOURCE_DIR = [''mnt'', ''usb_share'']"

definition DESTINATION_BASE_DIR :: path where
  "DESTINATION_BASE_DIR = [''transfer'']"

definition COPYING_ACTIVE_FILE :: path where
  "COPYING_ACTIVE_FILE = DESTINATION_BASE_DIR @ [''copyingActive'']"

text \<open>
  What the poller does to its surroundings: the commands it runs, the calls of \<^verbatim>\<open>os\<close>,
  \<^verbatim>\<open>pathlib\<close> and \<^verbatim>\<open>shutil\<close> that change something, and the lines it logs (level and
  the fixed part of the message). Every one of them is appended to a trace, in the
  order of the source.
\<close>

datatype syscall =
    Mount
  | Umount
  | Touch path
  | Remove path
  | Rmdir path
  | Makedirs path
  | Copy2 path path

datatype level = INFO | WARNING | ERROR

datatype event = Call syscall | Log level string

text \<open>
  The exceptions of the poller: the two \<^verbatim>\<open>Exception\<close>s it raises itself after a command
  with a non-zero exit status, an \<^verbatim>\<open>OSError\<close> of a call, the \<^verbatim>\<open>IndexError\<close> of a list
  index out of range and the \<^verbatim>\<open>ZeroDivisionError\<close> of a division.
\<close>

datatype error =
    MountFailed
  | UmountFailed
  | OSError syscall
  | IndexError
  | ZeroDivisionError

text \<open>
  The three numbers the poller reads from \<^verbatim>\<open>config.json\<close>. The file is taken to hold
  them, as numbers.
\<close>

record config =
  CopyCheckCycleTime :: rat
  DeleteOnUSBCycleTime :: rat
  KeepMaxFilesOnUSB :: int

text \<open>
  The world of the poller. Its own variables are \<open>last_modify_time\<close> and
  \<open>cycle_counter\<close> (the one-element lists of the source). \<open>clock\<close> counts the steps
  that take time: a mount, an unmount, a copy of a file, the sleep of the main loop.
  What the poller does not control is a function of that time: the modification time of
  the image \<^verbatim>\<open>/piusb.bin\<close> (the host writes to it whenever it likes), the exit status
  of a command, whether a call raises, and what the host does to the files of the device
  while the poller sleeps. \<open>usb\<close> is the content of the file system in the image, seen
  below \<^verbatim>\<open>SOURCE_DIR\<close> while \<open>mounted\<close>; \<open>marker\<close> says whether
  \<^verbatim>\<open>COPYING_ACTIVE_FILE\<close> is a file; \<open>transfer\<close> maps the path of a copied file to its
  content and modification time.
\<close>

record world =
  cfg :: config
  last_modify_time :: timestamp
  cycle_counter :: int
  clock :: nat
  img_mtime :: "nat \<Rightarrow> timestamp"
  exit_status :: "nat \<Rightarrow> syscall \<Rightarrow> int"
  raises :: "nat \<Rightarrow> syscall \<Rightarrow> bool"
  host_writes :: "nat \<Rightarrow> entry list \<Rightarrow> entry list"
  mounted :: bool
  usb :: "entry list"
  marker :: bool
  transfer :: "path \<rightharpoonup> string \<times> timestamp"
  trace :: "event list"

type_synonym 'a action = "world \<Rightarrow> (error + 'a) \<times> world"

text \<open>Sequencing: an exception of the first action skips the second.\<close>

definition seq :: "'a action \<Rightarrow> ('a \<Rightarrow> 'b action) \<Rightarrow> 'b action" where
  "seq m f w = (case m w of (Inl e, w') \<Rightarrow> (Inl e, w') | (Inr x, w') \<Rightarrow> f x w')"

definition emit :: "event \<Rightarrow> world \<Rightarrow> world" where
  "emit ev w = w\<lparr>trace := trace w @ [ev]\<rparr>"

definition tick :: "world \<Rightarrow> world" where
  "tick w = w\<lparr>clock := clock w + 1\<rparr>"

text \<open>
  \<^verbatim>\<open>mount(device, mount_dir)\<close> and \<^verbatim>\<open>umount(mount_dir)\<close>: run the command; a non-zero
  exit status is logged and raised; otherwise sleep half a second.
\<close>

definition mount :: "unit action" where
  "mount w =
     (let result = exit_status w (clock w) Mount; w1 = emit (Call Mount) w
      in if result \<noteq> 0
         then (Inl MountFailed, emit (Log ERROR ''Failed to mount'') w1)
         else (Inr (), tick (w1\<lparr>mounted := True\<rparr>)))"

definition umount :: "unit action" where
  "umount w =
     (let result = exit_status w (clock w) Umount; w1 = emit (Call Umount) w
      in if result \<noteq> 0
         then (Inl UmountFailed, emit (Log ERROR ''Failed to unmount'') w1)
         else (Inr (), tick (w1\<lparr>mounted := False\<rparr>)))"

text \<open>Paths: \<^verbatim>\<open>os.path.relpath\<close> on lists of components.\<close>

fun relpath :: "path \<Rightarrow> path \<Rightarrow> path" where
  "relpath p [] = p"
| "relpath [] (y # ys) = replicate (length (y # ys)) ''..''"
| "relpath (x # xs) (y # ys) =
     (if x = y then relpath xs ys else replicate (length (y # ys)) ''..'' @ (x # xs))"

text \<open>The entry a path relative to a directory leads to, if any.\<close>

fun lookup :: "entry list \<Rightarrow> path \<Rightarrow> entry option" where
  "lookup items [] = None"
| "lookup items [n] = find (\<lambda>e. ename e = n) items"
| "lookup items (n # m # rest) =
     (case find (\<lambda>e. ename e = n) items of
        Some (Dir _ _ cs) \<Rightarrow> lookup cs (m # rest)
      | _ \<Rightarrow> None)"

text \<open>
  Reading a regular file below \<^verbatim>\<open>SOURCE_DIR\<close>: the files of the device are there only
  while it is mounted.
\<close>

definition read_file :: "world \<Rightarrow> path \<Rightarrow> entry option" where
  "read_file w p =
     (if mounted w \<and> take (length SOURCE_DIR) p = SOURCE_DIR
      then (case lookup (usb w) (drop (length SOURCE_DIR) p) of
              Some (File n m c d) \<Rightarrow> Some (File n m c d)
            | _ \<Rightarrow> None)
      else None)"

text \<open>
  \<^verbatim>\<open>copy_file_with_directory_structure(source_base_path, source_file_path, dest_base_path)\<close>:
  the directory of the path relative to the source base is created below the
  destination base, and \<^verbatim>\<open>shutil.copy2\<close> copies the file into it under its own name, with
  its content and its modification time.
\<close>

definition copy_file_with_directory_structure :: "path \<Rightarrow> path \<Rightarrow> path \<Rightarrow> unit action" where
  "copy_file_with_directory_structure source_base_path source_file_path dest_base_path w =
     (let relative_path = relpath source_file_path source_base_path;
          destination_path = dest_base_path @ butlast relative_path;
          w1 = emit (Log INFO ''Copy'') w;
          w2 = emit (Call (Makedirs destination_path)) w1
      in if raises w (clock w) (Makedirs destination_path)
         then (Inl (OSError (Makedirs destination_path)), w2)
         else
           (let w3 = emit (Call (Copy2 source_file_path destination_path)) w2
            in case read_file w source_file_path of
                 None \<Rightarrow> (Inl (OSError (Copy2 source_file_path destination_path)), w3)
               | Some f \<Rightarrow>
                   if raises w (clock w) (Copy2 source_file_path destination_path)
                   then (Inl (OSError (Copy2 source_file_path destination_path)), w3)
                   else (Inr (), tick (w3\<lparr>transfer := (transfer w3)
                           (destination_path @ [last source_file_path] \<mapsto>
                              (content f, st_mtime f))\<rparr>))))"

text \<open>The loop \<^verbatim>\<open>for file in new_files\<close>: the first exception ends it.\<close>

fun copy_each :: "path list \<Rightarrow> path \<Rightarrow> unit action" where
  "copy_each [] destination_dir w = (Inr (), w)"
| "copy_each (file # files) destination_dir w =
     (case copy_file_with_directory_structure SOURCE_DIR file destination_dir w of
        (Inl e, w') \<Rightarrow> (Inl e, w')
      | (Inr _, w') \<Rightarrow> copy_each files destination_dir w')"

text \<open>\<^verbatim>\<open>str(int(t))\<close>: truncation towards zero, then the decimal numeral.\<close>

definition py_int :: "timestamp \<Rightarrow> int" where
  "py_int t = (if 0 \<le> t then \<lfloor>t\<rfloor> else \<lceil>t\<rceil>)"

function str_nat :: "nat \<Rightarrow> string" where
  "str_nat n =
     (if n < 10 then [''0123456789'' ! n]
      else str_nat (n div 10) @ [''0123456789'' ! (n mod 10)])"
  by pat_completeness auto
termination
  by (relation "measure id") auto

declare str_nat.simps [simp del]

definition str :: "int \<Rightarrow> string" where
  "str i = (if i < 0 then CHR ''-'' # str_nat (nat (- i)) else str_nat (nat i))"

text \<open>
  The marker at both ends of the copy: a marker found before the copy is logged and
  removed, then the marker is created; after the copy it is removed if it is a file.
\<close>

definition mark_active :: "unit action" where
  "mark_active w =
     (let w1 = (if marker w
                then emit (Call (Remove COPYING_ACTIVE_FILE))
                       (emit (Log WARNING ''already exists. Removing it to continue.'') w)
                else w)
      in if marker w \<and> raises w (clock w) (Remove COPYING_ACTIVE_FILE)
         then (Inl (OSError (Remove COPYING_ACTIVE_FILE)), w1)
         else
           (let w2 = emit (Call (Touch COPYING_ACTIVE_FILE)) (w1\<lparr>marker := False\<rparr>)
            in if raises w (clock w) (Touch COPYING_ACTIVE_FILE)
               then (Inl (OSError (Touch COPYING_ACTIVE_FILE)), w2)
               else (Inr (), w2\<lparr>marker := True\<rparr>)))"

definition clear_active :: "unit action" where
  "clear_active w =
     (if marker w
      then (let w1 = emit (Call (Remove COPYING_ACTIVE_FILE)) w
            in if raises w (clock w) (Remove COPYING_ACTIVE_FILE)
               then (Inl (OSError (Remove COPYING_ACTIVE_FILE)), w1)
               else (Inr (), w1\<lparr>marker := False\<rparr>))
      else (Inr (), w))"

text \<open>
  \<^verbatim>\<open>copy_new_files(last_modify_time, device)\<close>: when the image is newer than the
  stored time, mount, scan with \<^verbatim>\<open>newest_dir_count=2\<close>, set the marker, copy, clear the
  marker, unmount, and store the modification time the image has then.
\<close>

definition copy_new_files :: "unit action" where
  "copy_new_files w =
     (let current_modify_time = img_mtime w (clock w)
      in if current_modify_time > last_modify_time w
         then seq mount (\<lambda>_ w1.
                (let destination_dir = DESTINATION_BASE_DIR @ [str (py_int current_modify_time)];
                     new_files = get_files_since_point_in_time SOURCE_DIR (usb w1)
                                   (last_modify_time w1) 2
                 in seq mark_active (\<lambda>_.
                    seq (copy_each new_files destination_dir) (\<lambda>_.
                    seq clear_active (\<lambda>_.
                    seq umount (\<lambda>_ w5.
                      (Inr (), w5\<lparr>last_modify_time := img_mtime w5 (clock w5)\<rparr>))))) w1)) w
         else (Inr (), w))"

section \<open>The retention sweep of the poller\<close>

text \<open>
  \<^verbatim>\<open>get_all_file_entries_delete_empty_dirs(start_dir)\<close>: the loop over the entries counts
  every entry, collects the files and descends into the directories; after the loop, a
  count of zero logs the deletion and calls \<^verbatim>\<open>os.rmdir(start_dir)\<close>. The model is given
  the oracle of the raising calls, the path and the entries of the directory. It returns
  the exception if one was raised, the collected files (path and entry, as an
  \<^verbatim>\<open>os.DirEntry\<close> holds them), the entries left in the directory (\<open>None\<close> when the
  directory itself was removed) and the trace. \<open>scan_items\<close> is the loop.
\<close>

function get_all_file_entries_delete_empty_dirs ::
    "(syscall \<Rightarrow> bool) \<Rightarrow> path \<Rightarrow> entry list \<Rightarrow>
       error option \<times> (path \<times> entry) list \<times> entry list option \<times> event list"
  and scan_items ::
    "(syscall \<Rightarrow> bool) \<Rightarrow> path \<Rightarrow> entry list \<Rightarrow>
       error option \<times> (path \<times> entry) list \<times> entry list \<times> event list"
where
  "get_all_file_entries_delete_empty_dirs rf start_dir items =
     (case scan_items rf start_dir items of
        (Some e, all_file_entries, items', tr) \<Rightarrow> (Some e, all_file_entries, Some items', tr)
      | (None, all_file_entries, items', tr) \<Rightarrow>
          if length items = 0
          then (let tr' = tr @ [Log INFO ''Deleting empty directory'', Call (Rmdir start_dir)]
                in if rf (Rmdir start_dir)
                   then (Some (OSError (Rmdir start_dir)), all_file_entries, Some items', tr')
                   else (None, all_file_entries, None, tr'))
          else (None, all_file_entries, Some items', tr))"
| "scan_items rf start_dir [] = (None, [], [], [])"
| "scan_items rf start_dir (item # rest) =
     (case item of
        File n m c d \<Rightarrow>
          (case scan_items rf start_dir rest of
             (e, fs, rest', tr) \<Rightarrow> (e, (start_dir @ [n], item) # fs, item # rest', tr))
      | Dir n m cs \<Rightarrow>
          (case get_all_file_entries_delete_empty_dirs rf (start_dir @ [n]) cs of
             (Some e, fs, cs', tr) \<Rightarrow>
               (Some e, fs, (case cs' of None \<Rightarrow> [] | Some c \<Rightarrow> [Dir n m c]) @ rest, tr)
           | (None, fs, cs', tr) \<Rightarrow>
               (case scan_items rf start_dir rest of
                  (e, fs2, rest', tr2) \<Rightarrow>
                    (e, fs @ fs2,
                     (case cs' of None \<Rightarrow> [] | Some c \<Rightarrow> [Dir n m c]) @ rest', tr @ tr2)))
      | Other n \<Rightarrow>
          (case scan_items rf start_dir rest of
             (e, fs, rest', tr) \<Rightarrow> (e, fs, item # rest', tr)))"
  by pat_completeness auto
termination
  by (relation "measure (\<lambda>x. case x of
         Inl (rf, p, items) \<Rightarrow> 2 * size_list size items + 1
       | Inr (rf, p, items) \<Rightarrow> 2 * size_list size items)") auto

declare get_all_file_entries_delete_empty_dirs.simps [simp del]

text \<open>Removing the file a path relative to a directory leads to.\<close>

fun unlink :: "entry list \<Rightarrow> path \<Rightarrow> entry list" where
  "unlink [] p = []"
| "unlink (x # xs) [] = x # xs"
| "unlink (x # xs) [n] = (if ename x = n then (if is_file x then xs else x # xs) else x # unlink xs [n])"
| "unlink (x # xs) (n # m # rest) =
     (if ename x = n
      then (case x of Dir _ t cs \<Rightarrow> Dir n t (unlink cs (m # rest)) # xs | _ \<Rightarrow> x # xs)
      else x # unlink xs (n # m # rest))"

text \<open>
  \<^verbatim>\<open>os.remove(path)\<close> inside its \<^verbatim>\<open>try\<close>: on any exception (the call raises, or there is
  no such file) an error is logged and the loop goes on; the two handlers differ in
  the text they log only.
\<close>

definition remove_logged :: "path \<Rightarrow> world \<Rightarrow> world" where
  "remove_logged p w =
     (let w1 = emit (Call (Remove p)) w
      in if raises w (clock w) (Remove p) \<or> read_file w p = None
         then emit (Log ERROR ''Failed to delete file'') w1
         else emit (Log INFO ''Deleted file'')
                (w1\<lparr>usb := unlink (usb w1) (drop (length SOURCE_DIR) p)\<rparr>))"

text \<open>
  The loop \<^verbatim>\<open>for i in range(max_file_diff)\<close> over the indices: an index beyond the list
  raises \<^verbatim>\<open>IndexError\<close> inside the \<^verbatim>\<open>try\<close>, the handler that catches it formats its
  message with the same index and raises it again.
\<close>

fun delete_loop :: "nat list \<Rightarrow> (path \<times> entry) list \<Rightarrow> unit action" where
  "delete_loop [] file_entries w = (Inr (), w)"
| "delete_loop (i # is) file_entries w =
     (if i < length file_entries
      then delete_loop is file_entries (remove_logged (fst (file_entries ! i)) w)
      else (Inl IndexError, w))"

text \<open>
  \<^verbatim>\<open>check_and_delete_on_usb(cycle_counter, device, config)\<close>: the counter is incremented;
  once it exceeds the quotient of the two cycle times, the device is mounted, the files
  are collected, those beyond \<^verbatim>\<open>KeepMaxFilesOnUSB\<close> are removed in the order of their
  modification time, the device is unmounted and the counter is reset.
\<close>

definition check_and_delete_on_usb :: "unit action" where
  "check_and_delete_on_usb w =
     (if CopyCheckCycleTime (cfg w) = 0 then (Inl ZeroDivisionError, w)
      else
        (let check_count = DeleteOnUSBCycleTime (cfg w) / CopyCheckCycleTime (cfg w);
             w1 = w\<lparr>cycle_counter := cycle_counter w + 1\<rparr>
         in if of_int (cycle_counter w1) > check_count
            then seq mount (\<lambda>_ w2.
                   (case get_all_file_entries_delete_empty_dirs (raises w2 (clock w2))
                           SOURCE_DIR (usb w2) of
                      (err, file_entries, items', tr) \<Rightarrow>
                        (let w3 = w2\<lparr>usb := (case items' of None \<Rightarrow> [] | Some xs \<Rightarrow> xs),
                                      trace := trace w2 @ tr\<rparr>
                         in case err of
                              Some e \<Rightarrow> (Inl e, w3)
                            | None \<Rightarrow>
                                (let max_file_diff = int (length file_entries)
                                                       - KeepMaxFilesOnUSB (cfg w3)
                                 in seq (if max_file_diff > 0
                                         then delete_loop [0..<nat max_file_diff]
                                                (sort_key (\<lambda>f. st_mtime (snd f)) file_entries)
                                         else (\<lambda>w. (Inr (), w)))
                                      (\<lambda>_. seq umount
                                        (\<lambda>_ w6. (Inr (), w6\<lparr>cycle_counter := 0\<rparr>)))
                                      (emit (Log INFO ''Max_file_diff'') w3)))))
                   (emit (Log INFO ''Perform usb deletion check'') w1)
            else (Inr (), w1)))"

section \<open>The main loop of the poller\<close>

text \<open>
  \<^verbatim>\<open>time.sleep(config['CopyCheckCycleTime'])\<close>: time passes and the host may write to the
  device.
\<close>

definition sleep :: "world \<Rightarrow> world" where
  "sleep w = tick (w\<lparr>usb := host_writes w (clock w) (usb w)\<rparr>)"

text \<open>
  The \<^verbatim>\<open>while True\<close> loop inside the \<^verbatim>\<open>try\<close> of the script. It can only end by an
  exception, which the handler around the loop logs; the script ends there. The model
  runs at most a given number of iterations (the loop itself has no bound) and returns
  the exception that ended the loop, if any, the number of iterations begun and the
  world.
\<close>

fun main_loop :: "nat \<Rightarrow> world \<Rightarrow> error option \<times> nat \<times> world" where
  "main_loop 0 w = (None, 0, w)"
| "main_loop (Suc n) w =
     (case check_and_delete_on_usb w of
        (Inl ex, w1) \<Rightarrow> (Some ex, 1, emit (Log ERROR ''exception'') w1)
      | (Inr _, w1) \<Rightarrow>
          (case copy_new_files w1 of
             (Inl ex, w2) \<Rightarrow> (Some ex, 1, emit (Log ERROR ''exception'') w2)
           | (Inr _, w2) \<Rightarrow>
               (case main_loop n (sleep w2) of
                  (r, k, w3) \<Rightarrow> (r, Suc k, w3))))"

section \<open>Notions for the runs of the poller\<close>

text \<open>What an action leaves alone.\<close>

definition same_env :: "world \<Rightarrow> world \<Rightarrow> bool" where
  "same_env w w' \<longleftrightarrow>
     cfg w' = cfg w \<and> img_mtime w' = img_mtime w \<and> exit_status w' = exit_status w \<and>
     raises w' = raises w \<and> host_writes w' = host_writes w"

text \<open>The actions between mount and unmount: what they keep, and that they do not unmount.\<close>

definition between :: "world \<Rightarrow> world \<Rightarrow> bool" where
  "between w w' \<longleftrightarrow>
     same_env w w' \<and> mounted w' = mounted w \<and> last_modify_time w' = last_modify_time w \<and>
     cycle_counter w' = cycle_counter w \<and> clock w \<le> clock w' \<and>
     (\<exists>tr. trace w' = trace w @ tr \<and> Call Umount \<notin> set tr \<and> Call Mount \<notin> set tr)"

text \<open>
  The batch directory of a copy cycle that begins in a world, and the files its scan
  finds there.
\<close>

definition copy_batch_dir :: "world \<Rightarrow> path" where
  "copy_batch_dir w = DESTINATION_BASE_DIR @ [str (py_int (img_mtime w (clock w)))]"

definition copy_new_files_list :: "world \<Rightarrow> path list" where
  "copy_new_files_list w = get_files_since_point_in_time SOURCE_DIR (usb w) (last_modify_time w) 2"

text \<open>The events a run adds to the trace.\<close>

definition new_events :: "world \<Rightarrow> world \<Rightarrow> event list" where
  "new_events w w' = drop (length (trace w)) (trace w')"

text \<open>The part of the sweep between its mount and the end.\<close>

definition sweep_mounted :: "unit action" where
  "sweep_mounted w2 =
     (case get_all_file_entries_delete_empty_dirs (raises w2 (clock w2)) SOURCE_DIR (usb w2) of
        (err, file_entries, items', tr) \<Rightarrow>
          (let w3 = w2\<lparr>usb := (case items' of None \<Rightarrow> [] | Some xs \<Rightarrow> xs),
                        trace := trace w2 @ tr\<rparr>
           in case err of
                Some e \<Rightarrow> (Inl e, w3)
              | None \<Rightarrow>
                  (let max_file_diff = int (length file_entries) - KeepMaxFilesOnUSB (cfg w3)
                   in seq (if max_file_diff > 0
                           then delete_loop [0..<nat max_file_diff]
                                  (sort_key (\<lambda>f. st_mtime (snd f)) file_entries)
                           else (\<lambda>w. (Inr (), w)))
                        (\<lambda>_. seq umount (\<lambda>_ w6. (Inr (), w6\<lparr>cycle_counter := 0\<rparr>)))
                        (emit (Log INFO ''Max_file_diff'') w3))))"

text \<open>
  Whether the incremented counter exceeds the quotient of the cycle times, and the world
  in which a due sweep mounts.
\<close>

definition sweep_due :: "world \<Rightarrow> bool" where
  "sweep_due w \<longleftrightarrow>
     of_int (cycle_counter w + 1) > DeleteOnUSBCycleTime (cfg w) / CopyCheckCycleTime (cfg w)"

definition sweep_start :: "world \<Rightarrow> world" where
  "sweep_start w =
     emit (Log INFO ''Perform usb deletion check'') (w\<lparr>cycle_counter := cycle_counter w + 1\<rparr>)"

section \<open>Example worlds\<close>

text \<open>
  The scenario of the specification: the stored time is 1000, the image was modified at
  2000, and the device holds \<^verbatim>\<open>a.txt\<close> (modified at 1500) and \<^verbatim>\<open>sub/b.txt\<close> (modified
  at 1800). Every command succeeds, no call raises, and the host stays idle.
\<close>

definition image_at_2000 :: "nat \<Rightarrow> timestamp" where
  "image_at_2000 t = 2000"

definition commands_succeed :: "nat \<Rightarrow> syscall \<Rightarrow> int" where
  "commands_succeed t c = 0"

definition nothing_raises :: "nat \<Rightarrow> syscall \<Rightarrow> bool" where
  "nothing_raises t c = False"

definition host_idle :: "nat \<Rightarrow> entry list \<Rightarrow> entry list" where
  "host_idle t items = items"

definition scenario :: world where
  "scenario =
     \<lparr>cfg = \<lparr>CopyCheckCycleTime = 10, DeleteOnUSBCycleTime = 100, KeepMaxFilesOnUSB = 10\<rparr>,
      last_modify_time = 1000,
      cycle_counter = 0,
      clock = 0,
      img_mtime = image_at_2000,
      exit_status = commands_succeed,
      raises = nothing_raises,
      host_writes = host_idle,
      mounted = False,
      usb = [File ''a.txt'' 1500 1500 ''A'', Dir ''sub'' 1800 [File ''b.txt'' 1800 1800 ''B'']],
      marker = False,
      transfer = Map.empty,
      trace = []\<rparr>"

text \<open>The same scenario, except that the copy of \<^verbatim>\<open>sub/b.txt\<close> raises.\<close>

definition copy_of_b_raises :: "nat \<Rightarrow> syscall \<Rightarrow> bool" where
  "copy_of_b_raises t c =
     (c = Copy2 [''mnt'', ''usb_share'', ''sub'', ''b.txt''] [''transfer'', ''2000'', ''sub''])"

definition scenario_copy_fails :: world where
  "scenario_copy_fails = scenario\<lparr>raises := copy_of_b_raises\<rparr>"

text \<open>
  Two more worlds: one in which the host writes to the image while the poller copies (the
  modification time of the image grows with the clock), and one in which an earlier run
  left its marker. Then the events that open a copy cycle which finds a marker, and the
  test for the copy of a file among events.
\<close>

definition image_written_during_copy :: "nat \<Rightarrow> timestamp" where
  "image_written_during_copy t = 2000 + of_nat t"

definition scenario_host_writes :: world where
  "scenario_host_writes = scenario\<lparr>img_mtime := image_written_during_copy\<rparr>"

definition scenario_stale_marker :: world where
  "scenario_stale_marker = scenario\<lparr>marker := True\<rparr>"

definition stale_marker_events :: "event list" where
  "stale_marker_events =
     [Call Mount, Log WARNING ''already exists. Removing it to continue.'',
      Call (Remove COPYING_ACTIVE_FILE), Call (Touch COPYING_ACTIVE_FILE)]"

definition is_copy :: "event \<Rightarrow> bool" where
  "is_copy ev = (case ev of Call (Copy2 a b) \<Rightarrow> True | _ \<Rightarrow> False)"

text \<open>The scenario with a device that holds nothing, at the cycle in which the sweep is due.\<close>

definition scenario_empty_device :: world where
  "scenario_empty_device = scenario\<lparr>usb := [], cycle_counter := 10\<rparr>"

section \<open>The forwarder and its sinks\<close>

text \<open>
  The forwarder, \<^verbatim>\<open>upload_new_files_v2.py\<close>. Its configuration is the dictionary read from
  \<^verbatim>\<open>config.json\<close>, here with the keys the script looks up; a key may be missing.
\<close>

record fwd_config =
  ActivateDropboxSync :: "bool option"
  ActivateScpSync :: "bool option"
  DropBoxRefreshToken :: "string option"
  DropboxAppKey :: "string option"
  DropboxAppSecret :: "string option"
  DropBoxPath :: "string option"
  ScpPath :: "string option"

text \<open>
  What the forwarder calls, and what it logs. \<open>Files_upload\<close> carries the file, the
  remote root and the path relative to the batch directory that is appended to it.
\<close>

datatype fwd_call =
    Open path
  | Files_upload path string path
  | Scp path string
  | Rmtree path

datatype fwd_event = FCall fwd_call | FLog level string

datatype fwd_error = KeyError string | ClientError | FOSError fwd_call

text \<open>
  What the forwarder does not control: whether the construction of the Dropbox client
  raises, whether opening or uploading a file raises, the return code of the secure copy
  (\<open>None\<close> when \<^verbatim>\<open>subprocess.run\<close> itself raises) and whether \<^verbatim>\<open>shutil.rmtree\<close> raises.
\<close>

record sinks =
  client_raises :: bool
  open_raises :: "path \<Rightarrow> bool"
  upload_raises :: "path \<Rightarrow> bool"
  scp_returncode :: "path \<Rightarrow> int option"
  rmtree_raises :: "path \<Rightarrow> bool"

text \<open>\<^verbatim>\<open>get_all_files(folder)\<close>: the paths of the files below a directory.\<close>

fun get_all_files :: "path \<Rightarrow> entry list \<Rightarrow> path list" where
  "get_all_files folder [] = []"
| "get_all_files folder (File n m c d # items) = (folder @ [n]) # get_all_files folder items"
| "get_all_files folder (Dir n m cs # items) =
     get_all_files (folder @ [n]) cs @ get_all_files folder items"
| "get_all_files folder (Other n # items) = get_all_files folder items"

text \<open>
  The body of the loop over the files in \<^verbatim>\<open>transfer_to_dropbox\<close>: everything is inside
  the \<^verbatim>\<open>try\<close>, and both handlers log an error and let the loop go on (they differ in the
  text). The look-up of \<^verbatim>\<open>DropBoxPath\<close> is inside the \<^verbatim>\<open>try\<close> as well.
\<close>

definition upload_file :: "sinks \<Rightarrow> fwd_config \<Rightarrow> path \<Rightarrow> path \<Rightarrow> fwd_event list" where
  "upload_file env config source_dir file =
     FCall (Open file) #
     (if open_raises env file then [FLog ERROR ''Failed to upload file'']
      else case DropBoxPath config of
             None \<Rightarrow> [FLog ERROR ''Failed to upload file'']
           | Some remote \<Rightarrow>
               [FLog INFO ''STARTING Dropbox upload'',
                FCall (Files_upload file remote (relpath file source_dir))] @
               (if upload_raises env file then [FLog ERROR ''Failed to upload file'']
                else [FLog INFO ''FINISHED Dropbox upload'']))"

text \<open>
  \<^verbatim>\<open>transfer_to_dropbox(source_dir, config)\<close>: the three credentials are looked up and the
  client is constructed outside any \<^verbatim>\<open>try\<close>; then every file is uploaded.
\<close>

definition transfer_to_dropbox ::
    "sinks \<Rightarrow> fwd_config \<Rightarrow> path \<Rightarrow> entry list \<Rightarrow> fwd_error option \<times> fwd_event list" where
  "transfer_to_dropbox env config source_dir items =
     (case DropBoxRefreshToken config of
        None \<Rightarrow> (Some (KeyError ''DropBoxRefreshToken''), [])
      | Some token \<Rightarrow>
     (case DropboxAppKey config of
        None \<Rightarrow> (Some (KeyError ''DropboxAppKey''), [])
      | Some key \<Rightarrow>
     (case DropboxAppSecret config of
        None \<Rightarrow> (Some (KeyError ''DropboxAppSecret''), [])
      | Some secret \<Rightarrow>
          if client_raises env then (Some ClientError, [])
          else (None, concat (map (upload_file env config source_dir)
                                (get_all_files source_dir items))))))"

text \<open>
  \<^verbatim>\<open>transfer_via_scp(source_dir, config)\<close>: the whole body is inside a \<^verbatim>\<open>try\<close> whose
  handler logs; nothing leaves it.
\<close>

definition transfer_via_scp :: "sinks \<Rightarrow> fwd_config \<Rightarrow> path \<Rightarrow> fwd_event list" where
  "transfer_via_scp env config source_dir =
     (case ScpPath config of
        None \<Rightarrow> [FLog ERROR ''Failed to execute SCP transfer'']
      | Some remote \<Rightarrow>
          FCall (Scp source_dir remote) #
          (case scp_returncode env source_dir of
             None \<Rightarrow> [FLog ERROR ''Failed to execute SCP transfer'']
           | Some returncode \<Rightarrow>
               if returncode \<noteq> 0 then [FLog ERROR ''SCP transfer failed'']
               else [FLog INFO ''SCP transfer successful'']))"

text \<open>
  The body of the loop over the batch directories in the main loop: the two sinks that
  \<^verbatim>\<open>config.get\<close> finds switched on, then \<^verbatim>\<open>shutil.rmtree(folder)\<close>.
\<close>

definition process_folder ::
    "sinks \<Rightarrow> fwd_config \<Rightarrow> path \<Rightarrow> entry list \<Rightarrow> fwd_error option \<times> fwd_event list" where
  "process_folder env config folder items =
     (case (if ActivateDropboxSync config = Some True
            then transfer_to_dropbox env config folder items else (None, [])) of
        (Some e, tr1) \<Rightarrow> (Some e, tr1)
      | (None, tr1) \<Rightarrow>
          (let tr2 = (if ActivateScpSync config = Some True
                      then transfer_via_scp env config folder else [])
           in (if rmtree_raises env folder then Some (FOSError (Rmtree folder)) else None,
               tr1 @ tr2 @ [FCall (Rmtree folder)])))"

text \<open>The loop over the batch directories: an exception ends it.\<close>

fun process_folders ::
    "sinks \<Rightarrow> fwd_config \<Rightarrow> (path \<times> entry list) list \<Rightarrow> fwd_error option \<times> fwd_event list" where
  "process_folders env config [] = (None, [])"
| "process_folders env config ((folder, items) # folders) =
     (case process_folder env config folder items of
        (Some e, tr) \<Rightarrow> (Some e, tr)
      | (None, tr) \<Rightarrow>
          (case process_folders env config folders of (r, tr') \<Rightarrow> (r, tr @ tr')))"

text \<open>
  Whether the cloud sink can start: its three credentials are configured and its client
  can be constructed.
\<close>

definition cloud_ready :: "sinks \<Rightarrow> fwd_config \<Rightarrow> bool" where
  "cloud_ready env config \<longleftrightarrow>
     DropBoxRefreshToken config \<noteq> None \<and> DropboxAppKey config \<noteq> None \<and>
     DropboxAppSecret config \<noteq> None \<and> \<not> client_raises env"

text \<open>
  A configuration that switches both sinks on and lacks the refresh token, the same with
  the token, the same without the remote path of the secure copy, a batch of two files,
  and sinks of which every upload raises and the secure copy returns 1.
\<close>

definition config_without_token :: fwd_config where
  "config_without_token =
     \<lparr>ActivateDropboxSync = Some True, ActivateScpSync = Some True,
      DropBoxRefreshToken = None, DropboxAppKey = Some ''key'', DropboxAppSecret = Some ''secret'',
      DropBoxPath = Some ''/backup/'', ScpPath = Some ''pi@host:/backup''\<rparr>"

definition config_complete :: fwd_config where
  "config_complete = config_without_token\<lparr>DropBoxRefreshToken := Some ''token''\<rparr>"

definition config_without_scp_path :: fwd_config where
  "config_without_scp_path = config_complete\<lparr>ScpPath := None\<rparr>"

definition batch_2000 :: "entry list" where
  "batch_2000 = [File ''a.txt'' 1500 2000 ''A'', Dir ''sub'' 2000 [File ''b.txt'' 1800 2000 ''B'']]"

definition every_upload_raises :: "path \<Rightarrow> bool" where
  "every_upload_raises f = True"

definition never_raises :: "path \<Rightarrow> bool" where
  "never_raises f = False"

definition scp_fails :: "path \<Rightarrow> int option" where
  "scp_fails f = Some 1"

definition failing_sinks :: sinks where
  "failing_sinks =
     \<lparr>client_raises = False, open_raises = never_raises, upload_raises = every_upload_raises,
      scp_returncode = scp_fails, rmtree_raises = never_raises\<rparr>"

text \<open>
  Notions for the sweep. The files below a directory with their paths relative to it, in
  the order of the pass, and with their paths below a given directory; the directories
  below a directory with the number of their entries; whether some directory has no
  entry; the entries without the directories that have no entry; and that the names in
  every directory differ, as they do in a file system.
\<close>

fun rel_files :: "entry list \<Rightarrow> (path \<times> entry) list" where
  "rel_files [] = []"
| "rel_files (File n m c d # xs) = ([n], File n m c d) # rel_files xs"
| "rel_files (Dir n m cs # xs) = map (apfst ((#) n)) (rel_files cs) @ rel_files xs"
| "rel_files (Other n # xs) = rel_files xs"

definition files_under :: "path \<Rightarrow> entry list \<Rightarrow> (path \<times> entry) list" where
  "files_under p items = map (apfst ((@) p)) (rel_files items)"

fun rel_dirs :: "entry list \<Rightarrow> (path \<times> nat) list" where
  "rel_dirs [] = []"
| "rel_dirs (Dir n m cs # xs) = ([n], length cs) # map (apfst ((#) n)) (rel_dirs cs) @ rel_dirs xs"
| "rel_dirs (File n m c d # xs) = rel_dirs xs"
| "rel_dirs (Other n # xs) = rel_dirs xs"

definition has_empty_dir :: "entry list \<Rightarrow> bool" where
  "has_empty_dir items = list_ex (\<lambda>d. snd d = 0) (rel_dirs items)"

fun prune :: "entry list \<Rightarrow> entry list" where
  "prune [] = []"
| "prune (Dir n m [] # xs) = prune xs"
| "prune (Dir n m (c # cs) # xs) = Dir n m (prune (c # cs)) # prune xs"
| "prune (File n m c d # xs) = File n m c d # prune xs"
| "prune (Other n # xs) = Other n # prune xs"

fun names_distinct :: "entry list \<Rightarrow> bool" where
  "names_distinct [] = True"
| "names_distinct (Dir n m cs # xs) =
     (n \<notin> ename ` set xs \<and> names_distinct cs \<and> names_distinct xs)"
| "names_distinct (File n m c d # xs) = (n \<notin> ename ` set xs \<and> names_distinct xs)"
| "names_distinct (Other n # xs) = (n \<notin> ename ` set xs \<and> names_distinct xs)"

text \<open>
  The files of the device in the order in which the sweep removes them, and the number
  of files beyond the ceiling.
\<close>

definition by_age :: "world \<Rightarrow> (path \<times> entry) list" where
  "by_age w = sort_key (\<lambda>f. st_mtime (snd f)) (files_under SOURCE_DIR (usb w))"

definition excess :: "world \<Rightarrow> nat" where
  "excess w = length (files_under SOURCE_DIR (usb w)) - nat (KeepMaxFilesOnUSB (cfg w))"

text \<open>
  A device with one directory that holds one file, swept with a ceiling of no file, and
  a device with three files and an empty directory, swept with a ceiling of two files.
\<close>

definition scenario_evict_all :: world where
  "scenario_evict_all = scenario
     \<lparr>cfg := \<lparr>CopyCheckCycleTime = 10, DeleteOnUSBCycleTime = 100, KeepMaxFilesOnUSB = 0\<rparr>,
      usb := [Dir ''d'' 50 [File ''f'' 100 100 ''x'']],
      cycle_counter := 10\<rparr>"

definition scenario_sweep :: world where
  "scenario_sweep = scenario
     \<lparr>cfg := \<lparr>CopyCheckCycleTime = 10, DeleteOnUSBCycleTime = 100, KeepMaxFilesOnUSB = 2\<rparr>,
      usb := [File ''old'' 100 100 ''o'', Dir ''d'' 50 [File ''new'' 300 300 ''n''],
              File ''mid'' 200 200 ''m'', Dir ''e'' 60 []],
      cycle_counter := 10\<rparr>"

section \<open>The change scan returns the changed files of the newest directories\<close>

lemma scan_each_Nil: "scan_each base [] t d = []"
  by (simp add: scan_each_def)

lemma scan_each_Cons:
  "scan_each base (x # xs) t d =
     get_files_since_point_in_time (base @ [ename x]) (children x) t d @ scan_each base xs t d"
  by (simp add: scan_each_def)

lemma scan_unfold:
  "get_files_since_point_in_time base items t d =
     map (\<lambda>item. base @ [ename item])
       (filter (\<lambda>item. is_file item \<and> max (st_mtime item) (st_ctime item) > t) items) @
     scan_each base (take d (sort_key (\<lambda>e. - st_mtime e) (filter is_dir items))) t d"
  by (subst get_files_since_point_in_time.simps) (simp add: scan_each_def Let_def)

lemmas scan_eval = scan_unfold scan_each_Nil scan_each_Cons

lemma filter_concat_map:
  "filter P (concat (map f xs)) = concat (map (\<lambda>x. filter P (f x)) xs)"
  by (induction xs) auto

lemma scan_refines:
  "get_files_since_point_in_time base items t d =
     map fst (filter (\<lambda>(p, f). changed_since t f) (reachable_files base items d))"
proof (induction base items t d rule: get_files_since_point_in_time.induct)
  case (1 start_dir items point_in_time newest_dir_count)
  have IH: "\<And>z. z \<in> set (newest_dirs newest_dir_count items) \<Longrightarrow>
      get_files_since_point_in_time (start_dir @ [ename z]) (children z) point_in_time newest_dir_count =
      map fst (filter (\<lambda>(p, f). changed_since point_in_time f)
        (reachable_files (start_dir @ [ename z]) (children z) newest_dir_count))"
    using "1.IH" by (simp add: newest_dirs_def)
  have files: "map (\<lambda>item. start_dir @ [ename item])
       (filter (\<lambda>item. is_file item \<and> point_in_time < max (st_mtime item) (st_ctime item)) items)
     = map fst (filter (\<lambda>(p, f). changed_since point_in_time f)
         (map (\<lambda>f. (start_dir @ [ename f], f)) (filter is_file items)))"
    by (induction items) (auto simp: changed_since_def)
  have dirs: "concat (map (\<lambda>d. get_files_since_point_in_time (start_dir @ [ename d]) (children d)
                 point_in_time newest_dir_count) (newest_dirs newest_dir_count items))
     = map fst (filter (\<lambda>(p, f). changed_since point_in_time f)
         (concat (map (\<lambda>s. reachable_files (start_dir @ [ename s]) (children s) newest_dir_count)
            (newest_dirs newest_dir_count items))))"
    using IH by (simp add: filter_concat_map map_concat comp_def cong: map_cong)
  show ?case
    apply (subst get_files_since_point_in_time.simps)
    apply (subst reachable_files.simps)
    using files dirs by (simp add: Let_def newest_dirs_def)
qed

lemma scan_depth0:
  "get_files_since_point_in_time base items t 0 =
     map (\<lambda>f. base @ [ename f]) (filter (\<lambda>f. is_file f \<and> changed_since t f) items)"
  by (subst get_files_since_point_in_time.simps) (simp add: changed_since_def)

lemma newest_dirs_length: "length (newest_dirs d items) = min d (length (filter is_dir items))"
  by (simp add: newest_dirs_def min.commute)

lemma sorted_take_drop:
  assumes "sorted (map f xs)" and "a \<in> set (take n xs)" and "b \<in> set (drop n xs)"
  shows "f a \<le> f b"
proof -
  have "xs = take n xs @ drop n xs" by simp
  then have "sorted (map f (take n xs) @ map f (drop n xs))"
    using assms(1) by (metis map_append)
  then show ?thesis using assms(2,3) by (auto simp: sorted_append)
qed

lemma newest_dirs_newest:
  assumes "a \<in> set (newest_dirs d items)" "b \<in> set items" "is_dir b"
    "b \<notin> set (newest_dirs d items)"
  shows "st_mtime b \<le> st_mtime a"
proof -
  let ?ds = "sort_key (\<lambda>e. - st_mtime e) (filter is_dir items)"
  have "b \<in> set ?ds" using assms by simp
  then have "b \<in> set (take d ?ds) \<union> set (drop d ?ds)"
    by (metis append_take_drop_id set_append)
  then have "b \<in> set (drop d ?ds)" using assms(4) by (simp add: newest_dirs_def)
  moreover have "sorted (map (\<lambda>e. - st_mtime e) ?ds)" by simp
  ultimately have "- st_mtime a \<le> - st_mtime b"
    using assms(1) sorted_take_drop[of "\<lambda>e. - st_mtime e" ?ds a d b]
    by (simp add: newest_dirs_def)
  then show ?thesis by simp
qed

text \<open>
  Claim C4. For every directory, point in time \<open>t\<close> and count \<open>d\<close>, the scan returns
  exactly the paths of the files with \<open>max(st_mtime, st_ctime) > t\<close> among the files
  reachable by descending, at every level, into the \<open>d\<close> subdirectories that come first
  when the subdirectories are ordered by \<open>st_mtime\<close> descending: there are
  \<open>min d\<close> (number of subdirectories) of them and no subdirectory left out is newer
  than one taken. With \<open>d = 0\<close> the result is the qualifying files of the start
  directory alone. The scan is a function of the directory it reads: it calls
  \<^verbatim>\<open>os.scandir\<close>, \<^verbatim>\<open>is_file\<close>, \<^verbatim>\<open>is_dir\<close> and \<^verbatim>\<open>stat\<close> only, and changes nothing.
\<close>

theorem scan_returns_changed_reachable:
  "get_files_since_point_in_time base items t d =
     map fst (filter (\<lambda>(p, f). changed_since t f) (reachable_files base items d))
   \<and> get_files_since_point_in_time base items t 0 =
     map (\<lambda>f. base @ [ename f]) (filter (\<lambda>f. is_file f \<and> changed_since t f) items)
   \<and> length (newest_dirs d items) = min d (length (filter is_dir items))
   \<and> (\<forall>a \<in> set (newest_dirs d items). \<forall>b \<in> set items.
         is_dir b \<and> b \<notin> set (newest_dirs d items) \<longrightarrow> st_mtime b \<le> st_mtime a)"
  using scan_refines scan_depth0 newest_dirs_length newest_dirs_newest by blast

theorem scan_returns_changed_reachable_witness:
  "map fst (filter (\<lambda>(p, f). changed_since 2 f) (reachable_files [''mnt''] scan_example 2)) =
     [[''mnt'', ''a''], [''mnt'', ''d2'', ''c''], [''mnt'', ''d1'', ''b'']]
   \<and> newest_dirs 2 scan_example =
     [Dir ''d2'' 7 [File ''c'' 9 1 ''z'', File ''old'' 1 1 ''w''], Dir ''d1'' 3 [File ''b'' 9 9 ''y'']]
   \<and> st_mtime (Dir ''d3'' 1 [File ''e'' 9 9 ''v'']) \<le> st_mtime (Dir ''d1'' 3 [File ''b'' 9 9 ''y''])"
proof -
  have run: "get_files_since_point_in_time [''mnt''] scan_example 2 2 =
     [[''mnt'', ''a''], [''mnt'', ''d2'', ''c''], [''mnt'', ''d1'', ''b'']]"
    by (simp add: scan_eval scan_example_def)
  have nd: "newest_dirs 2 scan_example =
     [Dir ''d2'' 7 [File ''c'' 9 1 ''z'', File ''old'' 1 1 ''w''], Dir ''d1'' 3 [File ''b'' 9 9 ''y'']]"
    by (simp add: newest_dirs_def scan_example_def)
  have mem: "Dir ''d1'' 3 [File ''b'' 9 9 ''y''] \<in> set (newest_dirs 2 scan_example)"
    "Dir ''d3'' 1 [File ''e'' 9 9 ''v''] \<notin> set (newest_dirs 2 scan_example)"
    by (simp_all add: nd)
  have mem2: "Dir ''d3'' 1 [File ''e'' 9 9 ''v''] \<in> set scan_example"
    by (simp add: scan_example_def)
  show ?thesis
    using scan_returns_changed_reachable [of "[''mnt'']" scan_example 2 2] run nd mem mem2
    by auto
qed

section \<open>The wait of the forwarder is bounded by 31 seconds\<close>

lemma wait_loop_clear:
  "m \<le> n \<Longrightarrow> n \<le> 30 \<Longrightarrow> \<forall>k. m \<le> k \<and> k < n \<longrightarrow> isfile k \<Longrightarrow> \<not> isfile n \<Longrightarrow>
   wait_loop isfile m p = \<lparr>slept = n, polls = p + (n - m) + 1, timed_out = False\<rparr>"
proof (induction "n - m" arbitrary: m p)
  case 0
  then have "m = n" by simp
  with 0 show ?case by (subst wait_loop.simps) simp
next
  case (Suc d)
  then have lt: "m < n" by simp
  then have pm: "isfile m" using Suc.prems by simp
  have "wait_loop isfile (m + 1) (p + 1) =
      \<lparr>slept = n, polls = (p + 1) + (n - (m + 1)) + 1, timed_out = False\<rparr>"
    using Suc lt by (intro Suc.hyps) auto
  then show ?case using pm lt Suc.prems(2)
    by (subst wait_loop.simps) simp
qed

lemma wait_loop_timeout:
  "m \<le> 30 \<Longrightarrow> \<forall>k. m \<le> k \<and> k \<le> 30 \<longrightarrow> isfile k \<Longrightarrow>
   wait_loop isfile m p = \<lparr>slept = 31, polls = p + (31 - m), timed_out = True\<rparr>"
proof (induction "30 - m" arbitrary: m p)
  case 0
  then have "m = 30" by simp
  with 0 show ?case by (subst wait_loop.simps) simp
next
  case (Suc d)
  then have lt: "m < 30" by simp
  have pm: "isfile m" using Suc.prems by simp
  have "wait_loop isfile (m + 1) (p + 1) =
      \<lparr>slept = 31, polls = (p + 1) + (31 - (m + 1)), timed_out = True\<rparr>"
    using Suc lt by (intro Suc.hyps) auto
  then show ?case using pm lt
    by (subst wait_loop.simps) simp
qed

text \<open>
  The wait for every behaviour of the marker. It tests the marker once per second and
  returns at the first test that finds it absent: when the marker is present at seconds \<open>0 .. n - 1\<close> and
  absent at second \<open>n \<le> 30\<close>, it returns after \<open>n\<close> sleeps and \<open>n + 1\<close> tests without a
  warning. When the marker is present at each of the 31 tests at seconds \<open>0 .. 30\<close>, it
  logs the warning after the 31st sleep and returns. The wait never sleeps more than 31
  seconds.
\<close>

lemma wait_bounded:
  "slept (wait_until_no_copying_active isfile) \<le> 31
   \<and> (\<forall>n \<le> 30. (\<forall>k < n. isfile k) \<and> \<not> isfile n \<longrightarrow>
        wait_until_no_copying_active isfile = \<lparr>slept = n, polls = n + 1, timed_out = False\<rparr>)
   \<and> ((\<forall>k \<le> 30. isfile k) \<longrightarrow>
        wait_until_no_copying_active isfile = \<lparr>slept = 31, polls = 31, timed_out = True\<rparr>)"
proof -
  have clear: "\<forall>n \<le> 30. (\<forall>k < n. isfile k) \<and> \<not> isfile n \<longrightarrow>
        wait_until_no_copying_active isfile = \<lparr>slept = n, polls = n + 1, timed_out = False\<rparr>"
    using wait_loop_clear [of 0 _ isfile 0] by (simp add: wait_until_no_copying_active_def)
  have tmo: "(\<forall>k \<le> 30. isfile k) \<longrightarrow>
        wait_until_no_copying_active isfile = \<lparr>slept = 31, polls = 31, timed_out = True\<rparr>"
    using wait_loop_timeout [of 0 isfile 0] by (simp add: wait_until_no_copying_active_def)
  have "slept (wait_until_no_copying_active isfile) \<le> 31"
  proof (cases "\<forall>k \<le> 30. isfile k")
    case True
    then show ?thesis using tmo by simp
  next
    case False
    then obtain j where j: "j \<le> 30" "\<not> isfile j" by auto
    define n where "n = (LEAST k. \<not> isfile k)"
    have "\<not> isfile n" unfolding n_def using j(2) by (rule LeastI)
    moreover have "n \<le> j" unfolding n_def using j(2) by (rule Least_le)
    moreover have "\<forall>k < n. isfile k" unfolding n_def using not_less_Least by blast
    ultimately have "n \<le> 30 \<and> wait_until_no_copying_active isfile =
        \<lparr>slept = n, polls = n + 1, timed_out = False\<rparr>"
      using clear j(1) by auto
    then show ?thesis by simp
  qed
  then show ?thesis using clear tmo by blast
qed

text \<open>
  Claim C8. The wait is to give up after 30 seconds, so that it never blocks longer. With
  a marker that stays it sleeps 31 seconds: the loop is left when the count of the sleeps
  exceeds 30, which the 31st sleep brings about, not the 30th.
\<close>

theorem wait_blocks_31_seconds:
  "slept (wait_until_no_copying_active always_present) = 31
   \<and> \<not> slept (wait_until_no_copying_active always_present) \<le> 30"
  using wait_loop_timeout [of 0 always_present 0]
  by (simp add: wait_until_no_copying_active_def always_present_def)

lemma wait_bounded_examples:
  "wait_until_no_copying_active cleared_after_5 = \<lparr>slept = 5, polls = 6, timed_out = False\<rparr>
   \<and> wait_until_no_copying_active always_present = \<lparr>slept = 31, polls = 31, timed_out = True\<rparr>"
proof -
  have h: "\<forall>n \<le> 30. (\<forall>k < n. cleared_after_5 k) \<and> \<not> cleared_after_5 n \<longrightarrow>
        wait_until_no_copying_active cleared_after_5 =
          \<lparr>slept = n, polls = n + 1, timed_out = False\<rparr>"
    using wait_bounded [of cleared_after_5] by blast
  have a: "wait_until_no_copying_active cleared_after_5 =
          \<lparr>slept = 5, polls = 6, timed_out = False\<rparr>"
    using h [rule_format, of 5] by (simp add: cleared_after_5_def)
  have b: "wait_until_no_copying_active always_present =
          \<lparr>slept = 31, polls = 31, timed_out = True\<rparr>"
    using wait_bounded [of always_present] by (simp add: always_present_def)
  show ?thesis using a b by simp
qed

section \<open>The steps of a copy cycle\<close>

lemma seq_Inr:
  assumes "seq m f w = (Inr y, w')"
  obtains x w1 where "m w = (Inr x, w1)" and "f x w1 = (Inr y, w')"
  using assms by (auto simp: seq_def split: prod.splits sum.splits)

lemma seq_Inl:
  assumes "seq m f w = (Inl e, w')"
  obtains "m w = (Inl e, w')" | x w1 where "m w = (Inr x, w1)" and "f x w1 = (Inl e, w')"
  using assms by (auto simp: seq_def split: prod.splits sum.splits)

lemma seq_run: "m w = (Inr x, w1) \<Longrightarrow> seq m f w = f x w1"
  by (simp add: seq_def)

lemma seq_fail: "m w = (Inl e, w1) \<Longrightarrow> seq m f w = (Inl e, w1)"
  by (simp add: seq_def)

lemma same_env_refl: "same_env w w" by (simp add: same_env_def)

lemma same_env_trans: "same_env a b \<Longrightarrow> same_env b c \<Longrightarrow> same_env a c" by (simp add: same_env_def)

lemma mount_Inr:
  assumes "mount w = (Inr x, w')"
  shows "w' = w\<lparr>mounted := True, clock := clock w + 1, trace := trace w @ [Call Mount]\<rparr>"
    and "exit_status w (clock w) Mount = 0"
  using assms by (auto simp: mount_def Let_def emit_def tick_def split: if_splits)

lemma mount_Inl:
  assumes "mount w = (Inl e, w')"
  shows "e = MountFailed" and "mounted w' = mounted w"
    and "trace w' = trace w @ [Call Mount, Log ERROR ''Failed to mount'']"
    and "last_modify_time w' = last_modify_time w"
  using assms by (auto simp: mount_def Let_def emit_def tick_def split: if_splits)

lemma umount_Inr:
  assumes "umount w = (Inr x, w')"
  shows "w' = w\<lparr>mounted := False, clock := clock w + 1, trace := trace w @ [Call Umount]\<rparr>"
    and "exit_status w (clock w) Umount = 0"
  using assms by (auto simp: umount_def Let_def emit_def tick_def split: if_splits)

lemma umount_Inl:
  assumes "umount w = (Inl e, w')"
  shows "e = UmountFailed" and "mounted w' = mounted w"
    and "trace w' = trace w @ [Call Umount, Log ERROR ''Failed to unmount'']"
    and "last_modify_time w' = last_modify_time w"
  using assms by (auto simp: umount_def Let_def emit_def tick_def split: if_splits)

lemma between_refl: "between w w"
  by (simp add: between_def same_env_refl)

lemma between_trans: "between a b \<Longrightarrow> between b c \<Longrightarrow> between a c"
  by (auto simp: between_def same_env_def)

lemma mark_active_between: "mark_active w = (r, w') \<Longrightarrow> between w w'"
  by (auto simp: mark_active_def Let_def emit_def between_def same_env_def split: if_splits)

lemma clear_active_between: "clear_active w = (r, w') \<Longrightarrow> between w w'"
  by (auto simp: clear_active_def Let_def emit_def between_def same_env_def split: if_splits)

lemma copy_file_between:
  "copy_file_with_directory_structure b f d w = (r, w') \<Longrightarrow> between w w'"
  by (auto simp: copy_file_with_directory_structure_def Let_def emit_def tick_def between_def
      same_env_def split: if_splits option.splits)

lemma copy_each_between: "copy_each fs d w = (r, w') \<Longrightarrow> between w w'"
proof (induction fs arbitrary: w)
  case Nil
  then show ?case by (simp add: between_refl)
next
  case (Cons f fs)
  obtain r1 w1 where c: "copy_file_with_directory_structure SOURCE_DIR f d w = (r1, w1)"
    by (cases "copy_file_with_directory_structure SOURCE_DIR f d w")
  have b1: "between w w1" using c by (rule copy_file_between)
  show ?case
  proof (cases r1)
    case (Inl e)
    then show ?thesis using Cons.prems c b1 by simp
  next
    case (Inr u)
    then have "copy_each fs d w1 = (r, w')" using Cons.prems c by simp
    then show ?thesis using Cons.IH b1 between_trans by blast
  qed
qed

lemma copy_new_files_idle:
  "\<not> img_mtime w (clock w) > last_modify_time w \<Longrightarrow> copy_new_files w = (Inr (), w)"
  by (simp add: copy_new_files_def)

lemma copy_new_files_Inr:
  assumes "copy_new_files w = (Inr u, w')" and "img_mtime w (clock w) > last_modify_time w"
  obtains w1 w2 w3 w4 w5 where
    "mount w = (Inr (), w1)" "mark_active w1 = (Inr (), w2)"
    "copy_each (copy_new_files_list w) (copy_batch_dir w) w2 = (Inr (), w3)"
    "clear_active w3 = (Inr (), w4)" "umount w4 = (Inr (), w5)"
    "w' = w5\<lparr>last_modify_time := img_mtime w5 (clock w5)\<rparr>"
proof -
  from assms have s1: "seq mount (\<lambda>_ w1.
      seq mark_active (\<lambda>_.
        seq (copy_each (get_files_since_point_in_time SOURCE_DIR (usb w1) (last_modify_time w1) 2)
               (copy_batch_dir w)) (\<lambda>_.
        seq clear_active (\<lambda>_.
        seq umount (\<lambda>_ w5. (Inr (), w5\<lparr>last_modify_time := img_mtime w5 (clock w5)\<rparr>))))) w1) w
      = (Inr u, w')"
    by (simp add: copy_new_files_def Let_def copy_batch_dir_def)
  from s1 obtain x1 w1 where m: "mount w = (Inr x1, w1)"
    and s2: "seq mark_active (\<lambda>_.
        seq (copy_each (get_files_since_point_in_time SOURCE_DIR (usb w1) (last_modify_time w1) 2)
               (copy_batch_dir w)) (\<lambda>_.
        seq clear_active (\<lambda>_.
        seq umount (\<lambda>_ w5. (Inr (), w5\<lparr>last_modify_time := img_mtime w5 (clock w5)\<rparr>))))) w1
      = (Inr u, w')"
    by (auto simp: seq_def split: prod.splits sum.splits)
  have eq: "get_files_since_point_in_time SOURCE_DIR (usb w1) (last_modify_time w1) 2
      = copy_new_files_list w"
    using mount_Inr(1)[OF m] by (simp add: copy_new_files_list_def)
  from s2 obtain x2 w2 where a: "mark_active w1 = (Inr x2, w2)"
    and s3: "seq (copy_each (copy_new_files_list w) (copy_batch_dir w)) (\<lambda>_.
        seq clear_active (\<lambda>_.
        seq umount (\<lambda>_ w5. (Inr (), w5\<lparr>last_modify_time := img_mtime w5 (clock w5)\<rparr>)))) w2
      = (Inr u, w')"
    unfolding eq by (auto simp: seq_def split: prod.splits sum.splits)
  from s3 obtain x3 w3 where c: "copy_each (copy_new_files_list w) (copy_batch_dir w) w2 = (Inr x3, w3)"
    and s4: "seq clear_active (\<lambda>_.
        seq umount (\<lambda>_ w5. (Inr (), w5\<lparr>last_modify_time := img_mtime w5 (clock w5)\<rparr>))) w3
      = (Inr u, w')"
    by (auto simp: seq_def split: prod.splits sum.splits)
  from s4 obtain x4 w4 where d: "clear_active w3 = (Inr x4, w4)"
    and s5: "seq umount (\<lambda>_ w5. (Inr (), w5\<lparr>last_modify_time := img_mtime w5 (clock w5)\<rparr>)) w4
      = (Inr u, w')"
    by (auto simp: seq_def split: prod.splits sum.splits)
  from s5 obtain x5 w5 where e: "umount w4 = (Inr x5, w5)"
    and f: "(Inr (), w5\<lparr>last_modify_time := img_mtime w5 (clock w5)\<rparr>) = (Inr u, w')"
    by (auto simp: seq_def split: prod.splits sum.splits)
  show ?thesis using that[of w1 w2 w3 w4 w5] m a c d e f by simp
qed

lemma copy_new_files_Inl:
  assumes "copy_new_files w = (Inl e, w')"
  obtains (at_mount) "mount w = (Inl e, w')"
  | (at_mark) w1 where "mount w = (Inr (), w1)" "mark_active w1 = (Inl e, w')"
  | (at_copy) w1 w2 where "mount w = (Inr (), w1)" "mark_active w1 = (Inr (), w2)"
      "copy_each (copy_new_files_list w) (copy_batch_dir w) w2 = (Inl e, w')"
  | (at_clear) w1 w2 w3 where "mount w = (Inr (), w1)" "mark_active w1 = (Inr (), w2)"
      "copy_each (copy_new_files_list w) (copy_batch_dir w) w2 = (Inr (), w3)"
      "clear_active w3 = (Inl e, w')"
  | (at_umount) w1 w2 w3 w4 where "mount w = (Inr (), w1)" "mark_active w1 = (Inr (), w2)"
      "copy_each (copy_new_files_list w) (copy_batch_dir w) w2 = (Inr (), w3)"
      "clear_active w3 = (Inr (), w4)" "umount w4 = (Inl e, w')"
proof -
  have newer: "img_mtime w (clock w) > last_modify_time w"
    using assms by (auto simp: copy_new_files_def Let_def split: if_splits)
  obtain r1 w1 where m: "mount w = (r1, w1)" by (cases "mount w")
  show ?thesis
  proof (cases r1)
    case (Inl e1)
    then have "copy_new_files w = (Inl e1, w1)"
      using newer m by (simp add: copy_new_files_def Let_def seq_def)
    then show ?thesis using assms m Inl at_mount by simp
  next
    case (Inr x1)
    then have m': "mount w = (Inr (), w1)" using m by simp
    have eq: "get_files_since_point_in_time SOURCE_DIR (usb w1) (last_modify_time w1) 2
        = copy_new_files_list w"
      using mount_Inr(1)[OF m'] by (simp add: copy_new_files_list_def)
    have run: "copy_new_files w = seq mark_active (\<lambda>_.
        seq (copy_each (copy_new_files_list w) (copy_batch_dir w)) (\<lambda>_.
        seq clear_active (\<lambda>_.
        seq umount (\<lambda>_ w5. (Inr (), w5\<lparr>last_modify_time := img_mtime w5 (clock w5)\<rparr>))))) w1"
      using newer m' eq by (simp add: copy_new_files_def Let_def seq_run copy_batch_dir_def)
    obtain r2 w2 where a: "mark_active w1 = (r2, w2)" by (cases "mark_active w1")
    show ?thesis
    proof (cases r2)
      case (Inl e2)
      then show ?thesis using assms run a m' at_mark by (simp add: seq_def)
    next
      case (Inr x2)
      then have a': "mark_active w1 = (Inr (), w2)" using a by simp
      obtain r3 w3 where c: "copy_each (copy_new_files_list w) (copy_batch_dir w) w2 = (r3, w3)"
        by (cases "copy_each (copy_new_files_list w) (copy_batch_dir w) w2")
      show ?thesis
      proof (cases r3)
        case (Inl e3)
        then show ?thesis using assms run a' c m' at_copy by (simp add: seq_def)
      next
        case (Inr x3)
        then have c': "copy_each (copy_new_files_list w) (copy_batch_dir w) w2 = (Inr (), w3)"
          using c by simp
        obtain r4 w4 where d: "clear_active w3 = (r4, w4)" by (cases "clear_active w3")
        show ?thesis
        proof (cases r4)
          case (Inl e4)
          then show ?thesis using assms run a' c' d m' at_clear by (simp add: seq_def)
        next
          case (Inr x4)
          then have d': "clear_active w3 = (Inr (), w4)" using d by simp
          obtain r5 w5 where u: "umount w4 = (r5, w5)" by (cases "umount w4")
          show ?thesis
          proof (cases r5)
            case (Inl e5)
            then show ?thesis using assms run a' c' d' u m' at_umount by (simp add: seq_def)
          next
            case (Inr x5)
            then show ?thesis using assms run a' c' d' u by (simp add: seq_def)
          qed
        qed
      qed
    qed
  qed
qed

section \<open>Mounting and unmounting in a cycle\<close>

lemma check_and_delete_unfold:
  "check_and_delete_on_usb w =
     (if CopyCheckCycleTime (cfg w) = 0 then (Inl ZeroDivisionError, w)
      else if sweep_due w then seq mount (\<lambda>_. sweep_mounted) (sweep_start w)
      else (Inr (), w\<lparr>cycle_counter := cycle_counter w + 1\<rparr>))"
  by (simp add: check_and_delete_on_usb_def sweep_due_def sweep_start_def Let_def
      sweep_mounted_def [abs_def])


lemma remove_logged_between: "between w (remove_logged p w)"
  by (auto simp: remove_logged_def Let_def emit_def between_def same_env_def)

lemma delete_loop_between: "delete_loop is fe w = (r, w') \<Longrightarrow> between w w'"
proof (induction "is" arbitrary: w)
  case Nil
  then show ?case by (simp add: between_refl)
next
  case (Cons i "is")
  show ?case
  proof (cases "i < length fe")
    case True
    then have "delete_loop is fe (remove_logged (fst (fe ! i)) w) = (r, w')"
      using Cons.prems by simp
    then have "between (remove_logged (fst (fe ! i)) w) w'" by (rule Cons.IH)
    then show ?thesis using remove_logged_between between_trans by blast
  next
    case False
    then show ?thesis using Cons.prems by (simp add: between_refl)
  qed
qed

lemma between_new_events:
  assumes "between w w'"
  shows "Call Umount \<notin> set (new_events w w')" and "Call Mount \<notin> set (new_events w w')"
  using assms by (auto simp: between_def new_events_def)





section \<open>Runs of the example worlds\<close>

lemma str_nat_2000: "str_nat 2000 = ''2000''"
  by (subst str_nat.simps, simp)+

lemma str_2000: "str (py_int 2000) = ''2000''"
  by (simp add: str_def py_int_def str_nat_2000)

lemma scan_scenario:
  "get_files_since_point_in_time SOURCE_DIR
     [File ''a.txt'' 1500 1500 ''A'', Dir ''sub'' 1800 [File ''b.txt'' 1800 1800 ''B'']] 1000 2 =
     [[''mnt'', ''usb_share'', ''a.txt''], [''mnt'', ''usb_share'', ''sub'', ''b.txt'']]"
  by (simp add: scan_eval SOURCE_DIR_def)

lemmas run_defs = copy_new_files_def seq_def mount_def umount_def mark_active_def clear_active_def
  copy_file_with_directory_structure_def emit_def tick_def Let_def read_file_def
  SOURCE_DIR_def DESTINATION_BASE_DIR_def COPYING_ACTIVE_FILE_def

lemmas scenario_defs = scenario_def image_at_2000_def commands_succeed_def nothing_raises_def
  host_idle_def


lemma copy_ok_run:
  "fst (copy_new_files scenario) = Inr ()"
  "\<not> mounted (snd (copy_new_files scenario))"
  "\<not> marker (snd (copy_new_files scenario))"
  "last_modify_time (snd (copy_new_files scenario)) = 2000"
  "clock (snd (copy_new_files scenario)) = 4"
  "trace (snd (copy_new_files scenario)) =
     [Call Mount, Call (Touch [''transfer'', ''copyingActive'']),
      Log INFO ''Copy'', Call (Makedirs [''transfer'', ''2000'']),
      Call (Copy2 [''mnt'', ''usb_share'', ''a.txt''] [''transfer'', ''2000'']),
      Log INFO ''Copy'', Call (Makedirs [''transfer'', ''2000'', ''sub'']),
      Call (Copy2 [''mnt'', ''usb_share'', ''sub'', ''b.txt''] [''transfer'', ''2000'', ''sub'']),
      Call (Remove [''transfer'', ''copyingActive'']), Call Umount]"
  "transfer (snd (copy_new_files scenario)) [''transfer'', ''2000'', ''a.txt''] = Some (''A'', 1500)"
  "transfer (snd (copy_new_files scenario)) [''transfer'', ''2000'', ''sub'', ''b.txt''] =
     Some (''B'', 1800)"
  using scan_scenario
  by (simp_all add: run_defs scenario_defs str_2000)

section \<open>A cycle unmounts only when nothing raised\<close>




section \<open>The stored time, the marker and the end of the main loop\<close>

lemma between_env: "between w w' \<Longrightarrow> img_mtime w' = img_mtime w"
  by (simp add: between_def same_env_def)

lemma copy_cycle_watermark:
  assumes "copy_new_files w = (Inr u, w')" and "img_mtime w (clock w) > last_modify_time w"
  shows "\<exists>w4 w5. umount w4 = (Inr (), w5) \<and> clock w < clock w4 \<and> img_mtime w5 = img_mtime w \<and>
           w' = w5\<lparr>last_modify_time := img_mtime w5 (clock w5)\<rparr>"
    and "last_modify_time w' = img_mtime w (clock w')" and "clock w + 2 \<le> clock w'"
proof -
  from assms obtain w1 w2 w3 w4 w5 where
    m: "mount w = (Inr (), w1)" and a: "mark_active w1 = (Inr (), w2)"
    and c: "copy_each (copy_new_files_list w) (copy_batch_dir w) w2 = (Inr (), w3)"
    and d: "clear_active w3 = (Inr (), w4)" and um: "umount w4 = (Inr (), w5)"
    and w': "w' = w5\<lparr>last_modify_time := img_mtime w5 (clock w5)\<rparr>"
    by (rule copy_new_files_Inr)
  have w1: "w1 = w\<lparr>mounted := True, clock := clock w + 1, trace := trace w @ [Call Mount]\<rparr>"
    using m mount_Inr(1) by simp
  have "between w1 w2" using a by (rule mark_active_between)
  moreover have "between w2 w3" using c by (rule copy_each_between)
  ultimately have "between w1 w3" by (rule between_trans)
  moreover have "between w3 w4" using d by (rule clear_active_between)
  ultimately have b: "between w1 w4" by (rule between_trans)
  have w5: "w5 = w4\<lparr>mounted := False, clock := clock w4 + 1, trace := trace w4 @ [Call Umount]\<rparr>"
    using um umount_Inr(1) by simp
  have env: "img_mtime w5 = img_mtime w" using between_env[OF b] w1 w5 by simp
  have clk: "clock w < clock w4" using b w1 by (simp add: between_def)
  show "\<exists>w4 w5. umount w4 = (Inr (), w5) \<and> clock w < clock w4 \<and> img_mtime w5 = img_mtime w \<and>
           w' = w5\<lparr>last_modify_time := img_mtime w5 (clock w5)\<rparr>"
    using um clk env w' by blast
  show "last_modify_time w' = img_mtime w (clock w')" using w' env by simp
  show "clock w + 2 \<le> clock w'" using w' w5 clk by simp
qed

lemma mark_active_Inr:
  assumes "mark_active w = (Inr u, w')"
  shows "marker w'"
    and "trace w' = trace w @
           (if marker w then [Log WARNING ''already exists. Removing it to continue.'',
              Call (Remove COPYING_ACTIVE_FILE)] else []) @ [Call (Touch COPYING_ACTIVE_FILE)]"
  using assms by (auto simp: mark_active_def Let_def emit_def split: if_splits)

lemma mark_active_Inl:
  assumes "mark_active w = (Inl e, w')"
  shows "\<not> list_ex is_copy (new_events w w')" and "last_modify_time w' = last_modify_time w"
  using assms
  by (auto simp: mark_active_def Let_def emit_def new_events_def is_copy_def split: if_splits)

lemma clear_active_Inr: "clear_active w = (Inr u, w') \<Longrightarrow> \<not> marker w'"
  by (auto simp: clear_active_def Let_def emit_def split: if_splits)

lemma copy_cycle_marker_cleared:
  assumes "copy_new_files w = (Inr u, w')" and "img_mtime w (clock w) > last_modify_time w"
  shows "\<not> marker w'"
proof -
  from assms obtain w1 w2 w3 w4 w5 where
    d: "clear_active w3 = (Inr (), w4)" and um: "umount w4 = (Inr (), w5)"
    and w': "w' = w5\<lparr>last_modify_time := img_mtime w5 (clock w5)\<rparr>"
    by (rule copy_new_files_Inr)
  have "\<not> marker w4" using d by (rule clear_active_Inr)
  then show ?thesis using w' umount_Inr(1)[OF um] by simp
qed

lemma after_mark_events:
  assumes m: "mount w = (Inr (), w1)" and a: "mark_active w1 = (Inr (), w2)"
    and mk: "marker w" and ext: "trace w' = trace w2 @ tr"
  shows "take 4 (new_events w w') = stale_marker_events"
proof -
  have w1: "w1 = w\<lparr>mounted := True, clock := clock w + 1, trace := trace w @ [Call Mount]\<rparr>"
    using m mount_Inr(1) by simp
  then have "marker w1" using mk by simp
  then have "trace w2 = trace w @ stale_marker_events"
    using mark_active_Inr(2)[OF a] w1 by (simp add: stale_marker_events_def)
  then show ?thesis using ext by (simp add: new_events_def stale_marker_events_def)
qed

lemma between_ext: "between w w' \<Longrightarrow> \<exists>tr. trace w' = trace w @ tr"
  by (auto simp: between_def)

lemma stale_marker_removed_first:
  assumes run: "copy_new_files w = (r, w')" and mk: "marker w"
    and cp: "list_ex is_copy (new_events w w')"
  shows "take 4 (new_events w w') = stale_marker_events"
proof (cases r)
  case (Inr u)
  have newer: "img_mtime w (clock w) > last_modify_time w"
  proof (rule ccontr)
    assume "\<not> ?thesis"
    then have "w' = w" using run copy_new_files_idle by simp
    then show False using cp by (simp add: new_events_def)
  qed
  from run Inr newer obtain w1 w2 w3 w4 w5 where
    m: "mount w = (Inr (), w1)" and a: "mark_active w1 = (Inr (), w2)"
    and c: "copy_each (copy_new_files_list w) (copy_batch_dir w) w2 = (Inr (), w3)"
    and d: "clear_active w3 = (Inr (), w4)" and um: "umount w4 = (Inr (), w5)"
    and w': "w' = w5\<lparr>last_modify_time := img_mtime w5 (clock w5)\<rparr>"
    by (auto elim: copy_new_files_Inr)
  have "between w2 w3" using c by (rule copy_each_between)
  moreover have "between w3 w4" using d by (rule clear_active_between)
  ultimately have "between w2 w4" by (rule between_trans)
  then obtain tr where "trace w4 = trace w2 @ tr" using between_ext by blast
  then have "trace w' = trace w2 @ (tr @ [Call Umount])"
    using w' umount_Inr(1)[OF um] by simp
  then show ?thesis using after_mark_events m a mk by blast
next
  case (Inl e)
  then have c: "copy_new_files w = (Inl e, w')" using run by simp
  from c show ?thesis
  proof (cases rule: copy_new_files_Inl)
    case at_mount
    then have "trace w' = trace w @ [Call Mount, Log ERROR ''Failed to mount'']"
      using mount_Inl(3) by simp
    then show ?thesis using cp by (simp add: new_events_def is_copy_def)
  next
    case (at_mark w1)
    have w1: "w1 = w\<lparr>mounted := True, clock := clock w + 1, trace := trace w @ [Call Mount]\<rparr>"
      using at_mark(1) mount_Inr(1) by simp
    have n: "\<not> list_ex is_copy (new_events w1 w')" using at_mark(2) by (rule mark_active_Inl(1))
    obtain tr where tr: "trace w' = trace w1 @ tr"
      using mark_active_between[OF at_mark(2)] between_ext by blast
    then have "new_events w w' = Call Mount # new_events w1 w'"
      using w1 by (simp add: new_events_def)
    then show ?thesis using cp n by (simp add: is_copy_def)
  next
    case (at_copy w1 w2)
    obtain tr where "trace w' = trace w2 @ tr"
      using copy_each_between[OF at_copy(3)] between_ext by blast
    then show ?thesis using after_mark_events at_copy(1,2) mk by blast
  next
    case (at_clear w1 w2 w3)
    have "between w2 w3" using at_clear(3) by (rule copy_each_between)
    moreover have "between w3 w'" using at_clear(4) by (rule clear_active_between)
    ultimately have "between w2 w'" by (rule between_trans)
    then obtain tr where "trace w' = trace w2 @ tr" using between_ext by blast
    then show ?thesis using after_mark_events at_clear(1,2) mk by blast
  next
    case (at_umount w1 w2 w3 w4)
    have "between w2 w3" using at_umount(3) by (rule copy_each_between)
    moreover have "between w3 w4" using at_umount(4) by (rule clear_active_between)
    ultimately have "between w2 w4" by (rule between_trans)
    then obtain tr where "trace w4 = trace w2 @ tr" using between_ext by blast
    then have "trace w' = trace w2 @ (tr @ [Call Umount, Log ERROR ''Failed to unmount''])"
      using umount_Inl(3)[OF at_umount(5)] by simp
    then show ?thesis using after_mark_events at_umount(1,2) mk by blast
  qed
qed

lemma copy_error_keeps_watermark:
  assumes "copy_new_files w = (Inl e, w')"
  shows "last_modify_time w' = last_modify_time w"
  using assms
proof (cases rule: copy_new_files_Inl)
  case at_mount
  then show ?thesis using mount_Inl(4) by simp
next
  case (at_mark w1)
  then show ?thesis using mount_Inr(1)[OF at_mark(1)] mark_active_Inl(2) by simp
next
  case (at_copy w1 w2)
  have "between w1 w2" using at_copy(2) by (rule mark_active_between)
  moreover have "between w2 w'" using at_copy(3) by (rule copy_each_between)
  ultimately have "between w1 w'" by (rule between_trans)
  then show ?thesis using mount_Inr(1)[OF at_copy(1)] by (simp add: between_def)
next
  case (at_clear w1 w2 w3)
  have "between w1 w2" using at_clear(2) by (rule mark_active_between)
  moreover have "between w2 w3" using at_clear(3) by (rule copy_each_between)
  ultimately have "between w1 w3" by (rule between_trans)
  moreover have "between w3 w'" using at_clear(4) by (rule clear_active_between)
  ultimately have "between w1 w'" by (rule between_trans)
  then show ?thesis using mount_Inr(1)[OF at_clear(1)] by (simp add: between_def)
next
  case (at_umount w1 w2 w3 w4)
  have "between w1 w2" using at_umount(2) by (rule mark_active_between)
  moreover have "between w2 w3" using at_umount(3) by (rule copy_each_between)
  ultimately have "between w1 w3" by (rule between_trans)
  moreover have "between w3 w4" using at_umount(4) by (rule clear_active_between)
  ultimately have "between w1 w4" by (rule between_trans)
  then show ?thesis
    using mount_Inr(1)[OF at_umount(1)] umount_Inl(4)[OF at_umount(5)] by (simp add: between_def)
qed

lemma check_idle:
  assumes "CopyCheckCycleTime (cfg w) \<noteq> 0" and "\<not> sweep_due w"
  shows "check_and_delete_on_usb w = (Inr (), w\<lparr>cycle_counter := cycle_counter w + 1\<rparr>)"
  using assms by (simp add: check_and_delete_unfold)

lemma main_loop_stops:
  assumes "check_and_delete_on_usb w = (Inr u, w1)" and "copy_new_files w1 = (Inl e, w2)"
  shows "main_loop (Suc n) w = (Some e, 1, emit (Log ERROR ''exception'') w2)"
  using assms by simp

lemma host_writes_run:
  "fst (copy_new_files scenario_host_writes) = Inr ()"
  "clock (snd (copy_new_files scenario_host_writes)) = 4"
  "last_modify_time (snd (copy_new_files scenario_host_writes)) = 2004"
  using scan_scenario
  by (simp_all add: run_defs scenario_host_writes_def scenario_defs image_written_during_copy_def
      str_2000)

lemma stale_marker_run:
  "fst (copy_new_files scenario_stale_marker) = Inr ()"
  "\<not> marker (snd (copy_new_files scenario_stale_marker))"
  "trace (snd (copy_new_files scenario_stale_marker)) =
     [Call Mount, Log WARNING ''already exists. Removing it to continue.'',
      Call (Remove [''transfer'', ''copyingActive'']),
      Call (Touch [''transfer'', ''copyingActive'']),
      Log INFO ''Copy'', Call (Makedirs [''transfer'', ''2000'']),
      Call (Copy2 [''mnt'', ''usb_share'', ''a.txt''] [''transfer'', ''2000'']),
      Log INFO ''Copy'', Call (Makedirs [''transfer'', ''2000'', ''sub'']),
      Call (Copy2 [''mnt'', ''usb_share'', ''sub'', ''b.txt''] [''transfer'', ''2000'', ''sub'']),
      Call (Remove [''transfer'', ''copyingActive'']), Call Umount]"
  using scan_scenario
  by (simp_all add: run_defs scenario_stale_marker_def scenario_defs str_2000)

lemma copy_fails_after_check:
  "check_and_delete_on_usb scenario_copy_fails =
     (Inr (), scenario_copy_fails\<lparr>cycle_counter := 1\<rparr>)"
  "fst (copy_new_files (scenario_copy_fails\<lparr>cycle_counter := 1\<rparr>)) =
     Inl (OSError (Copy2 [''mnt'', ''usb_share'', ''sub'', ''b.txt''] [''transfer'', ''2000'', ''sub'']))"
  "last_modify_time (scenario_copy_fails\<lparr>cycle_counter := 1\<rparr>) = 1000"
proof -
  have "CopyCheckCycleTime (cfg scenario_copy_fails) \<noteq> 0" "\<not> sweep_due scenario_copy_fails"
    "cycle_counter scenario_copy_fails + 1 = 1"
    by (simp_all add: scenario_copy_fails_def scenario_def sweep_due_def)
  then show "check_and_delete_on_usb scenario_copy_fails =
     (Inr (), scenario_copy_fails\<lparr>cycle_counter := 1\<rparr>)"
    using check_idle[of scenario_copy_fails] by simp
  show "fst (copy_new_files (scenario_copy_fails\<lparr>cycle_counter := 1\<rparr>)) =
     Inl (OSError (Copy2 [''mnt'', ''usb_share'', ''sub'', ''b.txt''] [''transfer'', ''2000'', ''sub'']))"
    using scan_scenario
    by (simp add: run_defs scenario_copy_fails_def scenario_defs copy_of_b_raises_def str_2000)
  show "last_modify_time (scenario_copy_fails\<lparr>cycle_counter := 1\<rparr>) = 1000"
    by (simp add: scenario_copy_fails_def scenario_def)
qed

text \<open>
  Claim C7. A copy cycle that returns ends with a successful unmount, and the time it
  stores is the modification time the image has at the clock of the world the unmount
  returned, which is later than the clock at which the cycle read the image first.
\<close>

theorem watermark_is_read_after_unmount:
  "copy_new_files w = (Inr u, w') \<Longrightarrow> img_mtime w (clock w) > last_modify_time w \<Longrightarrow>
   (\<exists>w4 w5. umount w4 = (Inr (), w5) \<and> clock w < clock w4 \<and> img_mtime w5 = img_mtime w \<and>
      w' = w5\<lparr>last_modify_time := img_mtime w5 (clock w5)\<rparr>)
   \<and> last_modify_time w' = img_mtime w (clock w') \<and> clock w + 2 \<le> clock w'"
  using copy_cycle_watermark by blast

theorem watermark_is_read_after_unmount_witness:
  "last_modify_time (snd (copy_new_files scenario_host_writes)) = 2004
   \<and> img_mtime scenario_host_writes (clock scenario_host_writes) = 2000"
proof -
  have run: "copy_new_files scenario_host_writes = (Inr (), snd (copy_new_files scenario_host_writes))"
    using host_writes_run(1) by (metis prod.collapse)
  have newer: "img_mtime scenario_host_writes (clock scenario_host_writes)
      > last_modify_time scenario_host_writes"
    by (simp add: scenario_host_writes_def scenario_def image_written_during_copy_def)
  have "last_modify_time (snd (copy_new_files scenario_host_writes)) =
      img_mtime scenario_host_writes (clock (snd (copy_new_files scenario_host_writes)))"
    using watermark_is_read_after_unmount [OF run newer] by blast
  then have "last_modify_time (snd (copy_new_files scenario_host_writes)) =
      img_mtime scenario_host_writes 4"
    by (simp only: host_writes_run(2))
  moreover have "img_mtime scenario_host_writes = image_written_during_copy"
    "clock scenario_host_writes = 0"
    by (simp_all add: scenario_host_writes_def scenario_def)
  ultimately show ?thesis by (simp add: image_written_during_copy_def)
qed

text \<open>
  Claim C5. A copy cycle that returns leaves no marker. A copy cycle that finds the marker
  of an earlier run and copies a file has before that, right after the mount, logged the
  warning, removed the marker and created it again.
\<close>

theorem marker_cleared_and_stale_marker_removed:
  "copy_new_files w = (r, w') \<Longrightarrow>
   (r = Inr () \<and> img_mtime w (clock w) > last_modify_time w \<longrightarrow> \<not> marker w') \<and>
   (marker w \<and> list_ex is_copy (new_events w w') \<longrightarrow>
      take 4 (new_events w w') = stale_marker_events)"
  using copy_cycle_marker_cleared stale_marker_removed_first by blast

theorem marker_cleared_and_stale_marker_removed_witness:
  "\<not> marker (snd (copy_new_files scenario_stale_marker))
   \<and> take 4 (new_events scenario_stale_marker (snd (copy_new_files scenario_stale_marker))) =
       [Call Mount, Log WARNING ''already exists. Removing it to continue.'',
        Call (Remove [''transfer'', ''copyingActive'']),
        Call (Touch [''transfer'', ''copyingActive''])]"
proof -
  have run: "copy_new_files scenario_stale_marker =
      (Inr (), snd (copy_new_files scenario_stale_marker))"
    using stale_marker_run(1) by (metis prod.collapse)
  have newer: "img_mtime scenario_stale_marker (clock scenario_stale_marker)
      > last_modify_time scenario_stale_marker"
    and mk: "marker scenario_stale_marker" and tr: "trace scenario_stale_marker = []"
    by (simp_all add: scenario_stale_marker_def scenario_defs)
  have cp: "list_ex is_copy
      (new_events scenario_stale_marker (snd (copy_new_files scenario_stale_marker)))"
    by (simp add: new_events_def tr stale_marker_run(3) is_copy_def)
  show ?thesis
    using marker_cleared_and_stale_marker_removed [OF run] newer mk cp
    by (simp add: stale_marker_events_def COPYING_ACTIVE_FILE_def DESTINATION_BASE_DIR_def)
qed

text \<open>
  Claim C2, as amended. When a copy cycle ends in an exception (the copy of a changed file
  raised, say), the stored time is the one the cycle began with, and the exception ends
  the main loop: the handler around the loop logs it and no further iteration begins,
  however long the loop might have run.
\<close>

theorem copy_error_ends_main_loop:
  "check_and_delete_on_usb w = (Inr u, w1) \<Longrightarrow> copy_new_files w1 = (Inl e, w2) \<Longrightarrow>
   last_modify_time w2 = last_modify_time w1 \<and>
   main_loop (Suc n) w = (Some e, 1, emit (Log ERROR ''exception'') w2)"
  using copy_error_keeps_watermark main_loop_stops by blast

theorem copy_error_ends_main_loop_witness:
  "last_modify_time (snd (copy_new_files (scenario_copy_fails\<lparr>cycle_counter := 1\<rparr>))) = 1000
   \<and> fst (main_loop (Suc 4) scenario_copy_fails) =
       Some (OSError (Copy2 [''mnt'', ''usb_share'', ''sub'', ''b.txt''] [''transfer'', ''2000'', ''sub'']))"
proof -
  have run: "copy_new_files (scenario_copy_fails\<lparr>cycle_counter := 1\<rparr>) =
      (Inl (OSError (Copy2 [''mnt'', ''usb_share'', ''sub'', ''b.txt''] [''transfer'', ''2000'', ''sub''])),
       snd (copy_new_files (scenario_copy_fails\<lparr>cycle_counter := 1\<rparr>)))"
    using copy_fails_after_check(2) by (metis prod.collapse)
  show ?thesis
    using copy_error_ends_main_loop [OF copy_fails_after_check(1) run, of 4]
      copy_fails_after_check(3)
    by simp
qed

text \<open>
  Claim C2 as stated fails: a loop that could run five iterations begins one only when
  the copy raises in the first; there is no next tick.
\<close>

theorem copy_error_no_next_tick:
  "fst (main_loop 5 scenario_copy_fails) =
     Some (OSError (Copy2 [''mnt'', ''usb_share'', ''sub'', ''b.txt''] [''transfer'', ''2000'', ''sub'']))
   \<and> fst (snd (main_loop 5 scenario_copy_fails)) = 1"
proof -
  have run: "copy_new_files (scenario_copy_fails\<lparr>cycle_counter := 1\<rparr>) =
      (Inl (OSError (Copy2 [''mnt'', ''usb_share'', ''sub'', ''b.txt''] [''transfer'', ''2000'', ''sub''])),
       snd (copy_new_files (scenario_copy_fails\<lparr>cycle_counter := 1\<rparr>)))"
    using copy_fails_after_check(2) by (metis prod.collapse)
  have "(5::nat) = Suc 4" by simp
  then show ?thesis
    using main_loop_stops [OF copy_fails_after_check(1) run, of 4] by simp
qed

section \<open>The pass removes a start directory without entries\<close>

lemma collect_empty:
  "get_all_file_entries_delete_empty_dirs rf start_dir [] =
     (if rf (Rmdir start_dir) then Some (OSError (Rmdir start_dir)) else None, [],
      if rf (Rmdir start_dir) then Some [] else None,
      [Log INFO ''Deleting empty directory'', Call (Rmdir start_dir)])"
  by (subst get_all_file_entries_delete_empty_dirs.simps) simp

lemma sweep_mounted_empty:
  assumes "sweep_mounted w2 = (r, w')" and "usb w2 = []"
  shows "Call (Rmdir SOURCE_DIR) \<in> set (new_events w2 w')"
proof -
  define w3 where "w3 = w2\<lparr>usb := [],
      trace := trace w2 @ [Log INFO ''Deleting empty directory'', Call (Rmdir SOURCE_DIR)]\<rparr>"
  have pre: "trace w3 = trace w2 @ [Log INFO ''Deleting empty directory'', Call (Rmdir SOURCE_DIR)]"
    by (simp add: w3_def)
  show ?thesis
  proof (cases "raises w2 (clock w2) (Rmdir SOURCE_DIR)")
    case True
    then have "w' = w3" using assms by (simp add: sweep_mounted_def collect_empty w3_def)
    then show ?thesis using pre by (simp add: new_events_def)
  next
    case False
    define w4 where "w4 = emit (Log INFO ''Max_file_diff'') w3"
    define evict :: "unit action" where
      "evict = (if int (length ([]::(path \<times> entry) list)) - KeepMaxFilesOnUSB (cfg w3) > 0
                then delete_loop [0..<nat (int (length ([]::(path \<times> entry) list))
                                          - KeepMaxFilesOnUSB (cfg w3))]
                       (sort_key (\<lambda>f. st_mtime (snd f)) [])
                else (\<lambda>w. (Inr (), w)))"
    have run: "sweep_mounted w2 =
        seq evict (\<lambda>_. seq umount (\<lambda>_ w6. (Inr (), w6\<lparr>cycle_counter := 0\<rparr>))) w4"
      using False assms(2)
      by (simp add: sweep_mounted_def collect_empty Let_def w3_def w4_def evict_def)
    obtain r5 w5 where ev: "evict w4 = (r5, w5)" by (cases "evict w4")
    have b5: "between w4 w5"
      using ev delete_loop_between by (auto simp: evict_def between_refl split: if_splits)
    then obtain tr5 where tr5: "trace w5 = trace w4 @ tr5" using between_ext by blast
    have "\<exists>tr. trace w' = trace w5 @ tr"
    proof (cases r5)
      case (Inl e)
      then have "w' = w5" using assms(1) run ev by (simp add: seq_def)
      then show ?thesis by simp
    next
      case (Inr u)
      obtain r6 w6 where um: "umount w5 = (r6, w6)" by (cases "umount w5")
      have "\<exists>tr. trace w6 = trace w5 @ tr"
        using um by (auto simp: umount_def Let_def emit_def tick_def split: if_splits)
      moreover have "trace w' = trace w6"
        using assms(1) run ev Inr um by (cases r6) (auto simp: seq_def)
      ultimately show ?thesis by simp
    qed
    then obtain tr where "trace w' = trace w5 @ tr" by blast
    then have "trace w' = trace w2 @ [Log INFO ''Deleting empty directory'',
        Call (Rmdir SOURCE_DIR)] @ ([Log INFO ''Max_file_diff''] @ tr5 @ tr)"
      using tr5 pre by (simp add: w4_def emit_def)
    then show ?thesis by (simp add: new_events_def)
  qed
qed

lemma sweep_empty_device:
  assumes run: "check_and_delete_on_usb w = (r, w')"
    and nz: "CopyCheckCycleTime (cfg w) \<noteq> 0" and due: "sweep_due w"
    and ok: "exit_status w (clock w) Mount = 0" and empty: "usb w = []"
  shows "Call (Rmdir SOURCE_DIR) \<in> set (new_events w w')"
proof -
  define w2 where "w2 = (sweep_start w)\<lparr>mounted := True, clock := clock w + 1,
      trace := trace (sweep_start w) @ [Call Mount]\<rparr>"
  have m: "mount (sweep_start w) = (Inr (), w2)"
    using ok by (simp add: mount_def Let_def emit_def tick_def sweep_start_def w2_def)
  have sm: "sweep_mounted w2 = (r, w')"
    using run nz due m by (simp add: check_and_delete_unfold seq_def)
  have "usb w2 = []" using empty by (simp add: w2_def sweep_start_def emit_def)
  then have "Call (Rmdir SOURCE_DIR) \<in> set (new_events w2 w')"
    using sm sweep_mounted_empty by blast
  moreover have "trace w2 = trace w @ [Log INFO ''Perform usb deletion check'', Call Mount]"
    by (simp add: w2_def sweep_start_def emit_def)
  ultimately have "Call (Rmdir SOURCE_DIR) \<in> set (drop (length (trace w) + 2) (trace w'))"
    by (simp add: new_events_def)
  moreover have "set (drop (length (trace w) + 2) (trace w')) \<subseteq> set (drop (length (trace w)) (trace w'))"
    by (rule set_drop_subset_set_drop) simp
  ultimately show ?thesis by (auto simp: new_events_def)
qed

text \<open>
  Claim C10. The pass over a directory with zero entries logs the deletion and calls
  \<^verbatim>\<open>os.rmdir\<close> on that directory itself: when the call returns the directory is gone, when
  it raises the exception leaves the pass. In the poller the directory is the mount point:
  a sweep that mounts a device without entries calls \<^verbatim>\<open>os.rmdir\<close> on \<^verbatim>\<open>SOURCE_DIR\<close>.
\<close>

theorem empty_root_is_removed:
  "get_all_file_entries_delete_empty_dirs rf start_dir [] =
     (if rf (Rmdir start_dir) then Some (OSError (Rmdir start_dir)) else None, [],
      if rf (Rmdir start_dir) then Some [] else None,
      [Log INFO ''Deleting empty directory'', Call (Rmdir start_dir)])
   \<and> (check_and_delete_on_usb w = (r, w') \<and> CopyCheckCycleTime (cfg w) \<noteq> 0 \<and> sweep_due w \<and>
      exit_status w (clock w) Mount = 0 \<and> usb w = [] \<longrightarrow>
        Call (Rmdir SOURCE_DIR) \<in> set (new_events w w'))"
  using collect_empty sweep_empty_device by blast

theorem empty_root_is_removed_witness:
  "Call (Rmdir [''mnt'', ''usb_share''])
     \<in> set (trace (snd (check_and_delete_on_usb scenario_empty_device)))"
proof -
  have h: "CopyCheckCycleTime (cfg scenario_empty_device) \<noteq> 0" "sweep_due scenario_empty_device"
    "exit_status scenario_empty_device (clock scenario_empty_device) Mount = 0"
    "usb scenario_empty_device = []" "trace scenario_empty_device = []"
    by (simp_all add: scenario_empty_device_def scenario_defs sweep_due_def)
  have run: "check_and_delete_on_usb scenario_empty_device =
      (fst (check_and_delete_on_usb scenario_empty_device),
       snd (check_and_delete_on_usb scenario_empty_device))"
    by simp
  have "Call (Rmdir SOURCE_DIR) \<in> set (new_events scenario_empty_device
      (snd (check_and_delete_on_usb scenario_empty_device)))"
    using empty_root_is_removed [of _ _ scenario_empty_device
        "fst (check_and_delete_on_usb scenario_empty_device)"
        "snd (check_and_delete_on_usb scenario_empty_device)"] run h(1-4)
    by blast
  then show ?thesis by (simp add: new_events_def h(5) SOURCE_DIR_def)
qed

section \<open>The files of a batch\<close>

lemma relpath_append: "relpath (b @ r) b = r"
  by (induction b) auto

lemma scan_paths_below:
  "p \<in> set (get_files_since_point_in_time base items t d) \<Longrightarrow> \<exists>rel. p = base @ rel \<and> rel \<noteq> []"
proof (induction base items t d arbitrary: p rule: get_files_since_point_in_time.induct)
  case (1 start_dir items point_in_time newest_dir_count)
  from "1.prems" consider
    (direct) item where "p = start_dir @ [ename item]"
  | (sub) z where "z \<in> set (take newest_dir_count
                      (sort_key (\<lambda>d. - st_mtime d) (filter is_dir items)))"
      "p \<in> set (get_files_since_point_in_time (start_dir @ [ename z]) (children z)
                   point_in_time newest_dir_count)"
    by (subst (asm) get_files_since_point_in_time.simps) (auto simp: Let_def)
  then show ?case
  proof cases
    case direct
    then show ?thesis by simp
  next
    case sub
    then obtain rel where "p = (start_dir @ [ename z]) @ rel"
      using "1.IH" by blast
    then show ?thesis by simp
  qed
qed

lemma copy_file_Inr:
  assumes "copy_file_with_directory_structure SOURCE_DIR p dest w = (Inr u, w')"
  shows "\<exists>f. read_file w p = Some f \<and>
           transfer w' = (transfer w)(dest @ butlast (relpath p SOURCE_DIR) @ [last p] \<mapsto>
                            (content f, st_mtime f))"
    and "usb w' = usb w" and "mounted w' = mounted w"
  using assms
  by (auto simp: copy_file_with_directory_structure_def Let_def emit_def tick_def
      split: if_splits option.splits)

lemma read_file_cong: "usb w' = usb w \<Longrightarrow> mounted w' = mounted w \<Longrightarrow> read_file w' p = read_file w p"
  by (simp add: read_file_def)

lemma copy_key: "rel \<noteq> [] \<Longrightarrow>
    dest @ butlast (relpath (SOURCE_DIR @ rel) SOURCE_DIR) @ [last (SOURCE_DIR @ rel)] = dest @ rel"
  by (simp add: relpath_append)

lemma copy_each_transfer:
  assumes "copy_each files dest w = (Inr u, w')"
    and "\<forall>p \<in> set files. \<exists>rel. p = SOURCE_DIR @ rel \<and> rel \<noteq> []"
  shows "(\<forall>p \<in> set files. \<exists>f. read_file w p = Some f \<and>
            transfer w' (dest @ relpath p SOURCE_DIR) = Some (content f, st_mtime f)) \<and>
         (\<forall>k. k \<notin> (\<lambda>p. dest @ relpath p SOURCE_DIR) ` set files \<longrightarrow> transfer w' k = transfer w k) \<and>
         usb w' = usb w \<and> mounted w' = mounted w"
  using assms
proof (induction files arbitrary: w)
  case Nil
  then show ?case by simp
next
  case (Cons p files)
  obtain r1 w1 where c: "copy_file_with_directory_structure SOURCE_DIR p dest w = (r1, w1)"
    by (cases "copy_file_with_directory_structure SOURCE_DIR p dest w")
  have r1: "r1 = Inr ()" using Cons.prems(1) c by (cases r1) auto
  then have rest: "copy_each files dest w1 = (Inr u, w')" using Cons.prems(1) c by simp
  obtain rel where rel: "p = SOURCE_DIR @ rel" "rel \<noteq> []" using Cons.prems(2) by auto
  have key: "dest @ butlast (relpath p SOURCE_DIR) @ [last p] = dest @ relpath p SOURCE_DIR"
    using rel copy_key by (simp add: relpath_append)
  obtain f where f: "read_file w p = Some f"
    "transfer w1 = (transfer w)(dest @ relpath p SOURCE_DIR \<mapsto> (content f, st_mtime f))"
    using copy_file_Inr(1)[OF c[unfolded r1]] key by auto
  have same: "usb w1 = usb w" "mounted w1 = mounted w"
    using copy_file_Inr(2,3)[OF c[unfolded r1]] by simp_all
  have rd: "\<And>q. read_file w1 q = read_file w q" using same by (rule read_file_cong)
  have IH: "(\<forall>q \<in> set files. \<exists>g. read_file w1 q = Some g \<and>
            transfer w' (dest @ relpath q SOURCE_DIR) = Some (content g, st_mtime g)) \<and>
         (\<forall>k. k \<notin> (\<lambda>q. dest @ relpath q SOURCE_DIR) ` set files \<longrightarrow> transfer w' k = transfer w1 k) \<and>
         usb w' = usb w1 \<and> mounted w' = mounted w1"
    using Cons.IH[OF rest] Cons.prems(2) by simp
  have head: "transfer w' (dest @ relpath p SOURCE_DIR) = Some (content f, st_mtime f)"
  proof (cases "dest @ relpath p SOURCE_DIR \<in> (\<lambda>q. dest @ relpath q SOURCE_DIR) ` set files")
    case True
    then obtain q where q: "q \<in> set files" "dest @ relpath q SOURCE_DIR = dest @ relpath p SOURCE_DIR"
      by auto
    obtain rq where rq: "q = SOURCE_DIR @ rq" using Cons.prems(2) q(1) by auto
    have "q = p" using q(2) rq rel by (simp add: relpath_append)
    then show ?thesis using IH q(1) rd f(1) by auto
  next
    case False
    then have "transfer w' (dest @ relpath p SOURCE_DIR) = transfer w1 (dest @ relpath p SOURCE_DIR)"
      using IH by blast
    then show ?thesis using f(2) by simp
  qed
  show ?case
  proof (intro conjI ballI allI impI)
    fix q assume "q \<in> set (p # files)"
    then show "\<exists>g. read_file w q = Some g \<and>
        transfer w' (dest @ relpath q SOURCE_DIR) = Some (content g, st_mtime g)"
      using head f(1) IH rd by auto
  next
    fix k assume "k \<notin> (\<lambda>q. dest @ relpath q SOURCE_DIR) ` set (p # files)"
    then show "transfer w' k = transfer w k" using IH f(2) by auto
  next
    show "usb w' = usb w" using IH same by simp
    show "mounted w' = mounted w" using IH same by simp
  qed
qed

lemma mark_active_keeps: "mark_active w = (r, w') \<Longrightarrow> usb w' = usb w \<and> transfer w' = transfer w"
  by (auto simp: mark_active_def Let_def emit_def split: if_splits)

lemma clear_active_keeps: "clear_active w = (r, w') \<Longrightarrow> usb w' = usb w \<and> transfer w' = transfer w"
  by (auto simp: clear_active_def Let_def emit_def split: if_splits)

lemma copy_cycle_batch:
  assumes run: "copy_new_files w = (Inr u, w')" and newer: "img_mtime w (clock w) > last_modify_time w"
    and p: "p \<in> set (get_files_since_point_in_time SOURCE_DIR (usb w) (last_modify_time w) 2)"
  shows "\<exists>f. read_file (w\<lparr>mounted := True\<rparr>) p = Some f \<and>
           transfer w' (DESTINATION_BASE_DIR @ [str (py_int (img_mtime w (clock w)))] @
                          relpath p SOURCE_DIR) = Some (content f, st_mtime f)"
proof -
  from run newer obtain w1 w2 w3 w4 w5 where
    m: "mount w = (Inr (), w1)" and a: "mark_active w1 = (Inr (), w2)"
    and c: "copy_each (copy_new_files_list w) (copy_batch_dir w) w2 = (Inr (), w3)"
    and d: "clear_active w3 = (Inr (), w4)" and um: "umount w4 = (Inr (), w5)"
    and w': "w' = w5\<lparr>last_modify_time := img_mtime w5 (clock w5)\<rparr>"
    by (rule copy_new_files_Inr)
  have w1: "w1 = w\<lparr>mounted := True, clock := clock w + 1, trace := trace w @ [Call Mount]\<rparr>"
    using m mount_Inr(1) by simp
  have "mounted w2 = mounted w1" using mark_active_between[OF a] by (simp add: between_def)
  then have rd: "read_file w2 p = read_file (w\<lparr>mounted := True\<rparr>) p"
    using mark_active_keeps[OF a] w1 by (simp add: read_file_def)
  have below: "\<forall>q \<in> set (copy_new_files_list w). \<exists>rel. q = SOURCE_DIR @ rel \<and> rel \<noteq> []"
    using scan_paths_below by (auto simp: copy_new_files_list_def)
  have "p \<in> set (copy_new_files_list w)" using p by (simp add: copy_new_files_list_def)
  then obtain f where f: "read_file w2 p = Some f"
    "transfer w3 (copy_batch_dir w @ relpath p SOURCE_DIR) = Some (content f, st_mtime f)"
    using copy_each_transfer[OF c below] by blast
  have "transfer w' = transfer w3"
    using clear_active_keeps[OF d] umount_Inr(1)[OF um] w' by simp
  then show ?thesis using f rd by (simp add: copy_batch_dir_def)
qed

text \<open>
  Claim C9. In a copy cycle that returns, every changed file the scan found stands in
  the transfer directory below the batch directory, whose name is \<^verbatim>\<open>str(int(t))\<close> for the
  modification time \<open>t\<close> the image had when the cycle began, at its path relative to
  \<^verbatim>\<open>SOURCE_DIR\<close>, with the content and the modification time of the file on the device.
  In the scenario of the specification the batch directory is \<^verbatim>\<open>transfer/2000\<close>, it holds
  \<^verbatim>\<open>a.txt\<close> and \<^verbatim>\<open>sub/b.txt\<close> with their content, and the stored time is 2000 afterwards.
\<close>

theorem changed_files_are_copied_to_batch:
  "(copy_new_files w = (Inr u, w') \<and> img_mtime w (clock w) > last_modify_time w \<longrightarrow>
      (\<forall>p \<in> set (get_files_since_point_in_time SOURCE_DIR (usb w) (last_modify_time w) 2).
         \<exists>f. read_file (w\<lparr>mounted := True\<rparr>) p = Some f \<and>
           transfer w' (DESTINATION_BASE_DIR @ [str (py_int (img_mtime w (clock w)))] @
                          relpath p SOURCE_DIR) = Some (content f, st_mtime f)))
   \<and> fst (copy_new_files scenario) = Inr ()
   \<and> transfer (snd (copy_new_files scenario)) [''transfer'', ''2000'', ''a.txt''] = Some (''A'', 1500)
   \<and> transfer (snd (copy_new_files scenario)) [''transfer'', ''2000'', ''sub'', ''b.txt''] =
       Some (''B'', 1800)
   \<and> last_modify_time (snd (copy_new_files scenario)) = 2000"
  using copy_cycle_batch copy_ok_run(1,4,7,8) by blast

theorem changed_files_are_copied_to_batch_witness:
  "\<exists>f. read_file (scenario\<lparr>mounted := True\<rparr>) [''mnt'', ''usb_share'', ''sub'', ''b.txt''] = Some f \<and>
     transfer (snd (copy_new_files scenario))
       (DESTINATION_BASE_DIR @ [str (py_int (img_mtime scenario (clock scenario)))] @
          relpath [''mnt'', ''usb_share'', ''sub'', ''b.txt''] SOURCE_DIR) = Some (content f, st_mtime f)"
proof -
  have run: "copy_new_files scenario = (Inr (), snd (copy_new_files scenario))"
    using copy_ok_run(1) by (metis prod.collapse)
  have newer: "img_mtime scenario (clock scenario) > last_modify_time scenario"
    by (simp add: scenario_defs)
  have p: "[''mnt'', ''usb_share'', ''sub'', ''b.txt'']
      \<in> set (get_files_since_point_in_time SOURCE_DIR (usb scenario) (last_modify_time scenario) 2)"
    using scan_scenario by (simp add: scenario_def)
  show ?thesis
    using changed_files_are_copied_to_batch [of scenario "()" "snd (copy_new_files scenario)"]
      run newer p by blast
qed

section \<open>A batch is removed after its sinks\<close>

lemma dropbox_ready:
  "cloud_ready env config \<Longrightarrow>
   transfer_to_dropbox env config d items =
     (None, concat (map (upload_file env config d) (get_all_files d items)))"
  by (auto simp: cloud_ready_def transfer_to_dropbox_def)

lemma dropbox_not_ready:
  "\<not> cloud_ready env config \<Longrightarrow>
   fst (transfer_to_dropbox env config d items) \<noteq> None \<and>
   snd (transfer_to_dropbox env config d items) = []"
  by (auto simp: cloud_ready_def transfer_to_dropbox_def split: option.splits)

lemma process_folder_ready:
  assumes "ActivateDropboxSync config = Some True \<longrightarrow> cloud_ready env config"
  shows "process_folder env config folder items =
     (if rmtree_raises env folder then Some (FOSError (Rmtree folder)) else None,
      (if ActivateDropboxSync config = Some True
       then concat (map (upload_file env config folder) (get_all_files folder items)) else []) @
      (if ActivateScpSync config = Some True then transfer_via_scp env config folder else []) @
      [FCall (Rmtree folder)])"
  using assms by (simp add: process_folder_def dropbox_ready Let_def)

lemma process_folder_not_ready:
  assumes "ActivateDropboxSync config = Some True" and "\<not> cloud_ready env config"
  shows "fst (process_folder env config folder items) \<noteq> None"
    and "snd (process_folder env config folder items) = []"
  using assms dropbox_not_ready[of env config folder items]
  by (auto simp: process_folder_def split: prod.splits option.splits)

text \<open>
  Claim C6, as amended. When the cloud sink is switched off, or its three credentials are
  configured and its client can be constructed, the work on a batch directory is this,
  in this order, and nothing else. The cloud sink, if switched on, takes every file of
  the batch in turn: it opens the file; when that raises or \<^verbatim>\<open>DropBoxPath\<close> is not
  configured it logs an error; otherwise it logs the start, calls \<^verbatim>\<open>files_upload\<close> for
  the file with the remote root and the path relative to the batch directory, and logs
  the end, or an error when the upload raises; in every case it goes on with the next
  file. The secure copy, if switched on, runs once on the batch directory and logs its
  outcome, or only logs an error when \<^verbatim>\<open>ScpPath\<close> is not configured. Then
  \<^verbatim>\<open>shutil.rmtree\<close> is called on the batch directory, whatever the sinks did, and the
  only exception that can leave this work is its own. When the cloud sink is switched on
  and cannot start, its exception leaves the loop at once: nothing is opened or
  uploaded, nothing is sent by secure copy and the batch directory is not removed.
\<close>

theorem batch_removed_after_all_sinks:
  "((ActivateDropboxSync config = Some True \<longrightarrow> cloud_ready env config) \<longrightarrow>
      process_folder env config folder items =
        (if rmtree_raises env folder then Some (FOSError (Rmtree folder)) else None,
         (if ActivateDropboxSync config = Some True
          then concat (map (\<lambda>f. FCall (Open f) #
                 (case (if open_raises env f then None else DropBoxPath config) of
                    None \<Rightarrow> [FLog ERROR ''Failed to upload file'']
                  | Some remote \<Rightarrow>
                      [FLog INFO ''STARTING Dropbox upload'',
                       FCall (Files_upload f remote (relpath f folder)),
                       if upload_raises env f then FLog ERROR ''Failed to upload file''
                       else FLog INFO ''FINISHED Dropbox upload'']))
                 (get_all_files folder items))
          else []) @
         (if ActivateScpSync config = Some True
          then (case ScpPath config of
                  None \<Rightarrow> [FLog ERROR ''Failed to execute SCP transfer'']
                | Some remote \<Rightarrow>
                    [FCall (Scp folder remote),
                     case scp_returncode env folder of
                       None \<Rightarrow> FLog ERROR ''Failed to execute SCP transfer''
                     | Some returncode \<Rightarrow>
                         if returncode \<noteq> 0 then FLog ERROR ''SCP transfer failed''
                         else FLog INFO ''SCP transfer successful''])
          else []) @
         [FCall (Rmtree folder)]))
   \<and> (ActivateDropboxSync config = Some True \<and> \<not> cloud_ready env config \<longrightarrow>
        fst (process_folder env config folder items) \<noteq> None \<and>
        snd (process_folder env config folder items) = [])"
proof (intro conjI impI)
  assume ready: "ActivateDropboxSync config = Some True \<longrightarrow> cloud_ready env config"
  have up: "upload_file env config folder = (\<lambda>f. FCall (Open f) #
                 (case (if open_raises env f then None else DropBoxPath config) of
                    None \<Rightarrow> [FLog ERROR ''Failed to upload file'']
                  | Some remote \<Rightarrow>
                      [FLog INFO ''STARTING Dropbox upload'',
                       FCall (Files_upload f remote (relpath f folder)),
                       if upload_raises env f then FLog ERROR ''Failed to upload file''
                       else FLog INFO ''FINISHED Dropbox upload'']))"
    by (rule ext) (simp add: upload_file_def split: option.splits)
  have sc: "transfer_via_scp env config folder =
      (case ScpPath config of
                  None \<Rightarrow> [FLog ERROR ''Failed to execute SCP transfer'']
                | Some remote \<Rightarrow>
                    [FCall (Scp folder remote),
                     case scp_returncode env folder of
                       None \<Rightarrow> FLog ERROR ''Failed to execute SCP transfer''
                     | Some returncode \<Rightarrow>
                         if returncode \<noteq> 0 then FLog ERROR ''SCP transfer failed''
                         else FLog INFO ''SCP transfer successful''])"
    by (simp add: transfer_via_scp_def split: option.splits)
  show "process_folder env config folder items =
        (if rmtree_raises env folder then Some (FOSError (Rmtree folder)) else None,
         (if ActivateDropboxSync config = Some True
          then concat (map (\<lambda>f. FCall (Open f) #
                 (case (if open_raises env f then None else DropBoxPath config) of
                    None \<Rightarrow> [FLog ERROR ''Failed to upload file'']
                  | Some remote \<Rightarrow>
                      [FLog INFO ''STARTING Dropbox upload'',
                       FCall (Files_upload f remote (relpath f folder)),
                       if upload_raises env f then FLog ERROR ''Failed to upload file''
                       else FLog INFO ''FINISHED Dropbox upload'']))
                 (get_all_files folder items))
          else []) @
         (if ActivateScpSync config = Some True
          then (case ScpPath config of
                  None \<Rightarrow> [FLog ERROR ''Failed to execute SCP transfer'']
                | Some remote \<Rightarrow>
                    [FCall (Scp folder remote),
                     case scp_returncode env folder of
                       None \<Rightarrow> FLog ERROR ''Failed to execute SCP transfer''
                     | Some returncode \<Rightarrow>
                         if returncode \<noteq> 0 then FLog ERROR ''SCP transfer failed''
                         else FLog INFO ''SCP transfer successful''])
          else []) @
         [FCall (Rmtree folder)])"
    unfolding process_folder_ready[OF ready] up sc by (rule refl)
next
  assume "ActivateDropboxSync config = Some True \<and> \<not> cloud_ready env config"
  then show "fst (process_folder env config folder items) \<noteq> None"
    using process_folder_not_ready(1) by blast
next
  assume "ActivateDropboxSync config = Some True \<and> \<not> cloud_ready env config"
  then show "snd (process_folder env config folder items) = []"
    using process_folder_not_ready(2) by blast
qed

theorem batch_removed_after_all_sinks_witness:
  "process_folder failing_sinks config_complete [''transfer'', ''2000''] batch_2000 =
     (None,
      [FCall (Open [''transfer'', ''2000'', ''a.txt'']),
       FLog INFO ''STARTING Dropbox upload'',
       FCall (Files_upload [''transfer'', ''2000'', ''a.txt''] ''/backup/'' [''a.txt'']),
       FLog ERROR ''Failed to upload file'',
       FCall (Open [''transfer'', ''2000'', ''sub'', ''b.txt'']),
       FLog INFO ''STARTING Dropbox upload'',
       FCall (Files_upload [''transfer'', ''2000'', ''sub'', ''b.txt''] ''/backup/'' [''sub'', ''b.txt'']),
       FLog ERROR ''Failed to upload file'',
       FCall (Scp [''transfer'', ''2000''] ''pi@host:/backup''),
       FLog ERROR ''SCP transfer failed'',
       FCall (Rmtree [''transfer'', ''2000''])])
   \<and> process_folder failing_sinks config_without_scp_path [''transfer'', ''2000''] [] =
     (None, [FLog ERROR ''Failed to execute SCP transfer'', FCall (Rmtree [''transfer'', ''2000''])])"
proof -
  have h: "ActivateDropboxSync config_complete = Some True \<longrightarrow> cloud_ready failing_sinks config_complete"
    "ActivateDropboxSync config_without_scp_path = Some True \<longrightarrow>
       cloud_ready failing_sinks config_without_scp_path"
    by (simp_all add: config_complete_def config_without_token_def config_without_scp_path_def
        cloud_ready_def failing_sinks_def)
  have files: "get_all_files [''transfer'', ''2000''] batch_2000 =
      [[''transfer'', ''2000'', ''a.txt''], [''transfer'', ''2000'', ''sub'', ''b.txt'']]"
    by (simp add: batch_2000_def)
  have a: "process_folder failing_sinks config_complete [''transfer'', ''2000''] batch_2000 =
     (None,
      [FCall (Open [''transfer'', ''2000'', ''a.txt'']),
       FLog INFO ''STARTING Dropbox upload'',
       FCall (Files_upload [''transfer'', ''2000'', ''a.txt''] ''/backup/'' [''a.txt'']),
       FLog ERROR ''Failed to upload file'',
       FCall (Open [''transfer'', ''2000'', ''sub'', ''b.txt'']),
       FLog INFO ''STARTING Dropbox upload'',
       FCall (Files_upload [''transfer'', ''2000'', ''sub'', ''b.txt''] ''/backup/'' [''sub'', ''b.txt'']),
       FLog ERROR ''Failed to upload file'',
       FCall (Scp [''transfer'', ''2000''] ''pi@host:/backup''),
       FLog ERROR ''SCP transfer failed'',
       FCall (Rmtree [''transfer'', ''2000''])])"
    using batch_removed_after_all_sinks [of config_complete failing_sinks
        "[''transfer'', ''2000'']" batch_2000] h(1) files
    by (simp add: config_complete_def config_without_token_def failing_sinks_def
        every_upload_raises_def never_raises_def scp_fails_def)
  have b: "process_folder failing_sinks config_without_scp_path [''transfer'', ''2000''] [] =
     (None, [FLog ERROR ''Failed to execute SCP transfer'', FCall (Rmtree [''transfer'', ''2000''])])"
    using batch_removed_after_all_sinks [of config_without_scp_path failing_sinks
        "[''transfer'', ''2000'']" "[]"] h(2)
    by (simp add: config_without_scp_path_def config_complete_def config_without_token_def
        failing_sinks_def never_raises_def)
  show ?thesis using a b by simp
qed

text \<open>
  Claim C6 as stated fails: with both sinks switched on and the refresh token missing, the
  cloud sink raises, the secure copy is not attempted and the batch directory stays.
\<close>

theorem cloud_sink_error_skips_secure_copy:
  "process_folder failing_sinks config_without_token [''transfer'', ''2000''] batch_2000 =
     (Some (KeyError ''DropBoxRefreshToken''), [])"
  by (simp add: process_folder_def transfer_to_dropbox_def config_without_token_def)

section \<open>Files and directories under the sweep\<close>

lemma files_under_simps:
  "files_under p [] = []"
  "files_under p (File n m c d # xs) = (p @ [n], File n m c d) # files_under p xs"
  "files_under p (Dir n m cs # xs) = files_under (p @ [n]) cs @ files_under p xs"
  "files_under p (Other n # xs) = files_under p xs"
  by (simp_all add: files_under_def apfst_def map_prod_def case_prod_beta)

lemma collect_without_error:
  "(\<forall>c. \<not> rf c) \<Longrightarrow>
     \<exists>tr. get_all_file_entries_delete_empty_dirs rf p items =
           (None, files_under p items, if items = [] then None else Some (prune items), tr)"
  "(\<forall>c. \<not> rf c) \<Longrightarrow>
     \<exists>tr. scan_items rf p items = (None, files_under p items, prune items, tr)"
proof (induction rf p items and rf p items
    rule: get_all_file_entries_delete_empty_dirs_scan_items.induct)
  case (1 rf start_dir items)
  then obtain tr where "scan_items rf start_dir items =
      (None, files_under start_dir items, prune items, tr)" by blast
  then show ?case using "1.prems"
    by (subst get_all_file_entries_delete_empty_dirs.simps) (auto simp: Let_def files_under_simps)
next
  case (2 rf start_dir)
  then show ?case by (simp add: files_under_simps)
next
  case (3 rf start_dir item rest)
  show ?case
  proof (cases item)
    case (File n m c d)
    then obtain tr where "scan_items rf start_dir rest =
        (None, files_under start_dir rest, prune rest, tr)" using "3.IH"(1) "3.prems" by blast
    then show ?thesis using File by (simp add: files_under_simps)
  next
    case (Dir n m cs)
    then obtain tr1 where g: "get_all_file_entries_delete_empty_dirs rf (start_dir @ [n]) cs =
        (None, files_under (start_dir @ [n]) cs, if cs = [] then None else Some (prune cs), tr1)"
      using "3.IH"(2) "3.prems" by blast
    then obtain tr2 where s: "scan_items rf start_dir rest =
        (None, files_under start_dir rest, prune rest, tr2)"
      using "3.IH"(3)[OF Dir g[symmetric] refl refl refl "3.prems"] by blast
    show ?thesis using Dir g s by (cases cs) (simp_all add: files_under_simps)
  next
    case (Other n)
    then obtain tr where "scan_items rf start_dir rest =
        (None, files_under start_dir rest, prune rest, tr)" using "3.IH"(4) "3.prems" by blast
    then show ?thesis using Other by (simp add: files_under_simps)
  qed
qed

lemma rel_files_prune: "rel_files (prune items) = rel_files items"
  by (induction items rule: prune.induct) simp_all

lemma names_prune_subset: "ename ` set (prune items) \<subseteq> ename ` set items"
  by (induction items rule: prune.induct) auto

lemma names_distinct_prune: "names_distinct items \<Longrightarrow> names_distinct (prune items)"
  using names_prune_subset by (induction items rule: prune.induct) auto

lemma filter_apfst: "filter (\<lambda>d. P (snd d)) (map (apfst f) xs) = map (apfst f) (filter (\<lambda>d. P (snd d)) xs)"
  by (induction xs) auto

lemma map_fst_apfst: "map fst (map (apfst f) xs) = map f (map fst xs)"
  by (induction xs) auto

lemma map_fst_apfst_cong:
  "map fst xs = map fst ys \<Longrightarrow> map fst (map (apfst f) xs) = map fst (map (apfst f) ys)"
  by (metis map_fst_apfst)

lemma rel_dirs_prune:
  "map fst (rel_dirs (prune items)) = map fst (filter (\<lambda>d. snd d \<noteq> 0) (rel_dirs items))"
proof (induction items rule: prune.induct)
  case (3 n m c cs xs)
  have "map fst (map (apfst ((#) n)) (rel_dirs (prune (c # cs)))) =
      map fst (map (apfst ((#) n)) (filter (\<lambda>d. snd d \<noteq> 0) (rel_dirs (c # cs))))"
    using "3.IH"(1) by (rule map_fst_apfst_cong)
  then show ?case using "3.IH"(2) by (simp add: filter_apfst del: rel_dirs.simps prune.simps)
      (simp add: filter_apfst)
qed simp_all

lemma rel_dirs_unlink: "map fst (rel_dirs (unlink items rel)) = map fst (rel_dirs items)"
proof (induction items rel rule: unlink.induct)
  case (1 p)
  then show ?case by simp
next
  case (2 x xs)
  then show ?case by simp
next
  case (3 x xs n)
  then show ?case by (cases x) auto
next
  case (4 x xs n m rest)
  show ?case
  proof (cases x)
    case (Dir k t cs)
    show ?thesis
    proof (cases "k = n")
      case True
      have "map fst (map (apfst ((#) n)) (rel_dirs (unlink cs (m # rest)))) =
          map fst (map (apfst ((#) n)) (rel_dirs cs))"
        using "4.IH"(1)[of k t cs] Dir True by (intro map_fst_apfst_cong) simp
      then show ?thesis using Dir True by simp
    next
      case False
      then show ?thesis using "4.IH"(2) Dir by simp
    qed
  next
    case (File k t c d)
    then show ?thesis using "4.IH"(2) by simp
  next
    case (Other k)
    then show ?thesis using "4.IH"(2) by simp
  qed
qed

lemma rel_files_head:
  "(q, g) \<in> set (rel_files xs) \<Longrightarrow> q \<noteq> [] \<and> hd q \<in> ename ` set xs \<and> is_file g"
  by (induction xs arbitrary: q g rule: rel_files.induct) auto

lemma rel_files_in_dir:
  "(q, g) \<in> set (rel_files xs) \<Longrightarrow> (q = [ename g] \<and> g \<in> set xs) \<or> (\<exists>a b r. q = a # b # r)"
proof (induction xs arbitrary: q g rule: rel_files.induct)
  case (3 n m cs xs)
  from "3.prems" consider
    (sub) q' where "q = n # q'" "(q', g) \<in> set (rel_files cs)" | (rest) "(q, g) \<in> set (rel_files xs)"
    by auto
  then show ?case
  proof cases
    case sub
    then have "q' \<noteq> []" using rel_files_head by blast
    then show ?thesis using sub(1) by (cases q') auto
  next
    case rest
    then show ?thesis using "3.IH"(2) by auto
  qed
qed auto

lemma filter_apfst_Cons:
  "filter (\<lambda>x. fst x \<noteq> n # q) (map (apfst ((#) n)) xs) =
     map (apfst ((#) n)) (filter (\<lambda>x. fst x \<noteq> q) xs)"
  by (induction xs) auto

lemma filter_other_head:
  assumes "\<forall>x \<in> set xs. fst x \<noteq> [] \<and> hd (fst x) \<noteq> n"
  shows "filter (\<lambda>x. fst x \<noteq> n # q) xs = xs"
  using assms by (induction xs) auto

lemma rel_files_other_head:
  "n \<notin> ename ` set xs \<Longrightarrow> filter (\<lambda>x. fst x \<noteq> n # q) (rel_files xs) = rel_files xs"
  by (rule filter_other_head) (use rel_files_head in fastforce)

lemma sub_files_not_single:
  "filter (\<lambda>x. fst x \<noteq> [n]) (map (apfst ((#) k)) (rel_files cs)) = map (apfst ((#) k)) (rel_files cs)"
proof -
  have "\<forall>x \<in> set (map (apfst ((#) k)) (rel_files cs)). fst x \<noteq> [n]"
    using rel_files_head by fastforce
  then show ?thesis by (simp add: filter_id_conv)
qed

lemma sub_files_other_head:
  "k \<noteq> n \<Longrightarrow>
   filter (\<lambda>x. fst x \<noteq> n # q) (map (apfst ((#) k)) (rel_files cs)) = map (apfst ((#) k)) (rel_files cs)"
  by (auto simp: filter_id_conv)

lemma names_unlink_subset: "ename ` set (unlink items rel) \<subseteq> ename ` set items"
proof (induction items rel rule: unlink.induct)
  case (3 x xs n)
  then show ?case by auto
next
  case (4 x xs n m rest)
  then show ?case by (cases x) auto
qed simp_all

lemma rel_files_unlink:
  "names_distinct items \<Longrightarrow>
   rel_files (unlink items rel) = filter (\<lambda>x. fst x \<noteq> rel) (rel_files items)"
proof (induction items rel rule: unlink.induct)
  case (1 p)
  then show ?case by simp
next
  case (2 x xs)
  have "\<forall>y \<in> set (rel_files (x # xs)). fst y \<noteq> []" using rel_files_head by fastforce
  then show ?case by (simp add: filter_id_conv)
next
  case (3 x xs n)
  show ?case
  proof (cases x)
    case (File k t c d)
    then show ?thesis using 3 by (auto simp: rel_files_other_head)
  next
    case (Dir k t cs)
    then show ?thesis using 3
      by (auto simp: rel_files_other_head sub_files_not_single simp del: map_map)
  next
    case (Other k)
    then show ?thesis using 3 by (auto simp: rel_files_other_head)
  qed
next
  case (4 x xs n m rest)
  show ?case
  proof (cases x)
    case (File k t c d)
    then show ?thesis using 4 by (auto simp: rel_files_other_head)
  next
    case (Dir k t cs)
    show ?thesis
    proof (cases "k = n")
      case True
      have "rel_files (unlink cs (m # rest)) = filter (\<lambda>x. fst x \<noteq> m # rest) (rel_files cs)"
        using "4.IH"(1)[of k t cs] "4.prems" Dir True by simp
      then show ?thesis using "4.prems" Dir True
        by (simp add: filter_apfst_Cons rel_files_other_head)
    next
      case False
      then have "rel_files (unlink xs (n # m # rest)) =
          filter (\<lambda>x. fst x \<noteq> n # m # rest) (rel_files xs)"
        using "4.IH"(2) "4.prems" Dir by simp
      then show ?thesis using Dir False by (simp add: sub_files_other_head)
    qed
  next
    case (Other k)
    then show ?thesis using 4 by (auto simp: rel_files_other_head)
  qed
qed

lemma names_distinct_unlink: "names_distinct items \<Longrightarrow> names_distinct (unlink items rel)"
proof (induction items rel rule: unlink.induct)
  case (3 x xs n)
  then show ?case using names_unlink_subset[of xs "[n]"] by (cases x) auto
next
  case (4 x xs n m rest)
  then show ?case using names_unlink_subset[of xs "n # m # rest"] by (cases x) auto
qed simp_all

lemma find_skip: "\<not> P x \<Longrightarrow> find P (x # xs) = find P xs"
  by simp

lemma lookup_skip:
  "rel \<noteq> [] \<Longrightarrow> hd rel \<noteq> ename x \<Longrightarrow> lookup (x # xs) rel = lookup xs rel"
proof (cases rel)
  case Nil
  assume "rel \<noteq> []"
  with Nil show ?thesis by simp
next
  case (Cons a r)
  assume "hd rel \<noteq> ename x"
  with Cons show ?thesis by (cases r) auto
qed

lemma lookup_file:
  "names_distinct items \<Longrightarrow> (rel, f) \<in> set (rel_files items) \<Longrightarrow> lookup items rel = Some f"
proof (induction items arbitrary: rel f rule: rel_files.induct)
  case 1
  then show ?case by simp
next
  case (2 n m c d xs)
  show ?case
  proof (cases "(rel, f) = ([n], File n m c d)")
    case True
    then show ?thesis by simp
  next
    case False
    then have mem: "(rel, f) \<in> set (rel_files xs)" using "2.prems"(2) by auto
    then have "rel \<noteq> []" "hd rel \<in> ename ` set xs" using rel_files_head by blast+
    then have "lookup (File n m c d # xs) rel = lookup xs rel"
      using "2.prems"(1) by (intro lookup_skip) auto
    then show ?thesis using "2.IH" "2.prems"(1) mem by simp
  qed
next
  case (3 n m cs xs)
  from "3.prems"(2) consider
    (sub) q where "rel = n # q" "(q, f) \<in> set (rel_files cs)" | (rest) "(rel, f) \<in> set (rel_files xs)"
    by auto
  then show ?case
  proof cases
    case sub
    then have "q \<noteq> []" using rel_files_head by blast
    then obtain a r where q: "q = a # r" by (cases q) auto
    have "lookup cs q = Some f" using "3.IH"(1) "3.prems"(1) sub(2) by simp
    then show ?thesis using sub(1) q by simp
  next
    case rest
    then have "rel \<noteq> []" "hd rel \<in> ename ` set xs" using rel_files_head by blast+
    then have "lookup (Dir n m cs # xs) rel = lookup xs rel"
      using "3.prems"(1) by (intro lookup_skip) auto
    then show ?thesis using "3.IH"(2) "3.prems"(1) rest by simp
  qed
next
  case (4 n xs)
  then have mem: "(rel, f) \<in> set (rel_files xs)" by simp
  then have "rel \<noteq> []" "hd rel \<in> ename ` set xs" using rel_files_head by blast+
  then have "lookup (Other n # xs) rel = lookup xs rel"
    using "4.prems"(1) by (intro lookup_skip) auto
  then show ?case using "4.IH" "4.prems"(1) mem by simp
qed

lemma distinct_rel_files: "names_distinct items \<Longrightarrow> distinct (map fst (rel_files items))"
proof (induction items rule: rel_files.induct)
  case 1
  then show ?case by simp
next
  case (2 n m c d xs)
  have "[n] \<notin> fst ` set (rel_files xs)"
  proof
    assume "[n] \<in> fst ` set (rel_files xs)"
    then obtain g where "([n], g) \<in> set (rel_files xs)" by auto
    then have "n \<in> ename ` set xs" using rel_files_head[of "[n]" g xs] by simp
    then show False using "2.prems" by simp
  qed
  then show ?case using 2 by simp
next
  case (3 n m cs xs)
  have d: "distinct (map fst (rel_files cs))" using 3 by simp
  have "distinct (map ((#) n) (map fst (rel_files cs)))"
    using d by (simp only: distinct_map) (simp add: inj_on_def)
  then have inj: "distinct (map fst (map (apfst ((#) n)) (rel_files cs)))"
    unfolding map_fst_apfst .
  have disj: "fst ` set (map (apfst ((#) n)) (rel_files cs)) \<inter> fst ` set (rel_files xs) = {}"
  proof (rule ccontr)
    assume "\<not> ?thesis"
    then obtain q g where "(n # q, g) \<in> set (rel_files xs)" by (auto simp: image_iff) force
    then have "n \<in> ename ` set xs" using rel_files_head[of "n # q" g xs] by simp
    then show False using "3.prems" by simp
  qed
  show ?case using 3 inj disj by (simp del: map_map)
next
  case (4 n xs)
  then show ?case by simp
qed

section \<open>The sweep keeps the newest files\<close>

lemma files_under_mem:
  "(p, f) \<in> set (files_under b items) \<longleftrightarrow> (\<exists>rel. p = b @ rel \<and> (rel, f) \<in> set (rel_files items))"
  by (auto simp: files_under_def apfst_def map_prod_def image_iff) force+

lemma remove_logged_ok:
  assumes "mounted w" and "\<not> raises w (clock w) (Remove (SOURCE_DIR @ rel))"
    and "names_distinct (usb w)" and "(rel, f) \<in> set (rel_files (usb w))"
  shows "usb (remove_logged (SOURCE_DIR @ rel) w) = unlink (usb w) rel"
proof -
  have "lookup (usb w) rel = Some f" using assms(3,4) by (rule lookup_file)
  moreover have "is_file f" using assms(4) rel_files_head by blast
  ultimately have "read_file w (SOURCE_DIR @ rel) = Some f"
    using assms(1) by (cases f) (simp_all add: read_file_def)
  then show ?thesis using assms(2) by (simp add: remove_logged_def Let_def emit_def)
qed

lemma remove_logged_frame:
  "mounted (remove_logged p w) = mounted w" "clock (remove_logged p w) = clock w"
  "raises (remove_logged p w) = raises w" "cfg (remove_logged p w) = cfg w"
  by (simp_all add: remove_logged_def Let_def emit_def)

lemma evict_fold:
  assumes "mounted w" and "\<forall>c. \<not> raises w (clock w) c" and "names_distinct (usb w)"
    and "set vs \<subseteq> set (files_under SOURCE_DIR (usb w))" and "distinct (map fst vs)"
  shows "rel_files (usb (foldl (\<lambda>w x. remove_logged (fst x) w) w vs)) =
           filter (\<lambda>x. SOURCE_DIR @ fst x \<notin> fst ` set vs) (rel_files (usb w)) \<and>
         map fst (rel_dirs (usb (foldl (\<lambda>w x. remove_logged (fst x) w) w vs))) =
           map fst (rel_dirs (usb w))"
  using assms
proof (induction vs arbitrary: w)
  case Nil
  then show ?case by simp
next
  case (Cons v vs)
  obtain p f where v: "v = (p, f)" by (cases v)
  then obtain rel where rel: "p = SOURCE_DIR @ rel" "(rel, f) \<in> set (rel_files (usb w))"
    using Cons.prems(4) files_under_mem by auto
  define w1 where "w1 = remove_logged p w"
  have u1: "usb w1 = unlink (usb w) rel"
    unfolding w1_def rel(1) using Cons.prems(1,2,3) rel(2) by (intro remove_logged_ok) auto
  have f1: "rel_files (usb w1) = filter (\<lambda>x. fst x \<noteq> rel) (rel_files (usb w))"
    using u1 Cons.prems(3) by (simp add: rel_files_unlink)
  have pre1: "mounted w1" "\<forall>c. \<not> raises w1 (clock w1) c" "names_distinct (usb w1)"
    using Cons.prems(1,2,3) u1 by (simp_all add: w1_def remove_logged_frame names_distinct_unlink)
  have pre4: "set vs \<subseteq> set (files_under SOURCE_DIR (usb w1))"
  proof
    fix x assume x: "x \<in> set vs"
    obtain q g where xq: "x = (q, g)" by (cases x)
    then obtain r where r: "q = SOURCE_DIR @ r" "(r, g) \<in> set (rel_files (usb w))"
      using Cons.prems(4) x files_under_mem by (metis list.set_intros(2) subsetD)
    have "q \<noteq> p" using Cons.prems(5) x xq v by force
    then have "r \<noteq> rel" using r(1) rel(1) by auto
    then have "(r, g) \<in> set (rel_files (usb w1))" using f1 r(2) by simp
    then show "x \<in> set (files_under SOURCE_DIR (usb w1))" using xq r(1) files_under_mem by blast
  qed
  have pre5: "distinct (map fst vs)" using Cons.prems(5) by simp
  note IH = Cons.IH[OF pre1 pre4 pre5]
  have files: "filter (\<lambda>x. SOURCE_DIR @ fst x \<notin> fst ` set vs)
        (filter (\<lambda>x. fst x \<noteq> rel) (rel_files (usb w))) =
      filter (\<lambda>x. SOURCE_DIR @ fst x \<notin> fst ` set (v # vs)) (rel_files (usb w))"
    using v rel(1) by (auto intro: filter_cong)
  have dirs: "map fst (rel_dirs (usb w1)) = map fst (rel_dirs (usb w))"
    using u1 by (simp add: rel_dirs_unlink)
  show ?case using IH f1 files dirs by (simp add: w1_def v)
qed

lemma delete_loop_fold:
  "k \<le> length fe \<Longrightarrow>
   delete_loop [i..<k] fe w =
     (Inr (), foldl (\<lambda>w x. remove_logged (fst x) w) w (take (k - i) (drop i fe)))"
proof (induction "k - i" arbitrary: i w)
  case 0
  then show ?case by simp
next
  case (Suc d)
  then have lt: "i < k" by simp
  then have il: "i < length fe" using Suc.prems by simp
  have up: "[i..<k] = i # [Suc i..<k]" using lt by (simp add: upt_conv_Cons)
  have tk: "take (k - i) (drop i fe) = fe ! i # take (k - Suc i) (drop (Suc i) fe)"
    using lt il by (metis Cons_nth_drop_Suc Suc_diff_Suc take_Suc_Cons)
  have "delete_loop [Suc i..<k] fe (remove_logged (fst (fe ! i)) w) =
      (Inr (), foldl (\<lambda>w x. remove_logged (fst x) w) (remove_logged (fst (fe ! i)) w)
                 (take (k - Suc i) (drop (Suc i) fe)))"
    using Suc.hyps(2) Suc.prems by (intro Suc.hyps(1)) auto
  then show ?case using up tk il by simp
qed

lemma filter_take_drop:
  assumes "distinct (map fst ys)"
  shows "filter (\<lambda>x. fst x \<notin> fst ` set (take k ys)) ys = drop k ys"
proof -
  have d: "distinct (map fst (take k ys) @ map fst (drop k ys))"
    using assms by (metis append_take_drop_id map_append)
  have a: "filter (\<lambda>x. fst x \<notin> fst ` set (take k ys)) (take k ys) = []"
    by (simp add: filter_empty_conv)
  have b: "filter (\<lambda>x. fst x \<notin> fst ` set (take k ys)) (drop k ys) = drop k ys"
    using d by (auto simp: filter_id_conv)
  have "filter (\<lambda>x. fst x \<notin> fst ` set (take k ys)) (take k ys @ drop k ys) = drop k ys"
    using a b by (simp only: filter_append) simp
  then show ?thesis by simp
qed

lemma distinct_files_under:
  "names_distinct items \<Longrightarrow> distinct (map fst (files_under b items))"
proof -
  assume "names_distinct items"
  then have "distinct (map fst (rel_files items))" by (rule distinct_rel_files)
  then have "distinct (map ((@) b) (map fst (rel_files items)))"
    by (simp only: distinct_map) (simp add: inj_on_def)
  then show ?thesis by (simp add: files_under_def map_fst_apfst)
qed

lemma distinct_by_age:
  assumes "distinct (map fst F)"
  shows "distinct (map fst (sort_key k F))"
proof -
  have "mset (map fst (sort_key k F)) = mset (map fst F)" by simp
  then show ?thesis using assms mset_eq_imp_distinct_iff by blast
qed

lemma umount_usb: "umount w = (r, w') \<Longrightarrow> usb w' = usb w"
  by (auto simp: umount_def Let_def emit_def tick_def split: if_splits)

lemma filter_files_under:
  "filter (\<lambda>x. fst x \<notin> A) (files_under b items) =
     map (apfst ((@) b)) (filter (\<lambda>x. b @ fst x \<notin> A) (rel_files items))"
  by (simp add: files_under_def filter_map comp_def)

lemma sweep_mounted_files:
  assumes run: "sweep_mounted w2 = (r, w')" and mt: "mounted w2"
    and nr: "\<forall>c. \<not> raises w2 (clock w2) c" and nd: "names_distinct (usb w2)"
    and keep: "0 \<le> KeepMaxFilesOnUSB (cfg w2)"
  shows "files_under SOURCE_DIR (usb w') =
           filter (\<lambda>x. fst x \<notin> fst ` set (take (excess w2) (by_age w2)))
             (files_under SOURCE_DIR (usb w2))"
    and "map fst (rel_dirs (usb w')) = map fst (filter (\<lambda>d. snd d \<noteq> 0) (rel_dirs (usb w2)))"
proof -
  define F where "F = files_under SOURCE_DIR (usb w2)"
  define vs where "vs = take (excess w2) (by_age w2)"
  define step where "step = (\<lambda>w (x :: path \<times> entry). remove_logged (fst x) w)"
  obtain tr where g:
    "get_all_file_entries_delete_empty_dirs (raises w2 (clock w2)) SOURCE_DIR (usb w2) =
       (None, F, if usb w2 = [] then None else Some (prune (usb w2)), tr)"
    using collect_without_error(1)[OF nr] F_def by blast
  define w3 where "w3 = w2\<lparr>usb := prune (usb w2), trace := trace w2 @ tr\<rparr>"
  define w4 where "w4 = emit (Log INFO ''Max_file_diff'') w3"
  define evict :: "unit action" where
    "evict = (if int (length F) - KeepMaxFilesOnUSB (cfg w3) > 0
              then delete_loop [0..<nat (int (length F) - KeepMaxFilesOnUSB (cfg w3))]
                     (sort_key (\<lambda>f. st_mtime (snd f)) F)
              else (\<lambda>w. (Inr (), w)))"
  have w3_alt: "w2\<lparr>usb := (case (if usb w2 = [] then None else Some (prune (usb w2))) of
        None \<Rightarrow> [] | Some xs \<Rightarrow> xs), trace := trace w2 @ tr\<rparr> = w3"
    by (simp add: w3_def)
  have cfg3: "cfg w3 = cfg w2" by (simp add: w3_def)
  have body: "sweep_mounted w2 =
      seq evict (\<lambda>_. seq umount (\<lambda>_ w6. (Inr (), w6\<lparr>cycle_counter := 0\<rparr>))) w4"
    unfolding sweep_mounted_def g
    by (simp add: Let_def w3_alt w4_def evict_def cfg3 del: prune.simps)
  have ex: "excess w2 = length F - nat (KeepMaxFilesOnUSB (cfg w2))"
    by (simp add: excess_def F_def)
  have age: "by_age w2 = sort_key (\<lambda>f. st_mtime (snd f)) F" by (simp add: by_age_def F_def)
  have ev: "evict w4 = (Inr (), foldl step w4 vs)"
  proof (cases "int (length F) - KeepMaxFilesOnUSB (cfg w3) > 0")
    case True
    have k: "nat (int (length F) - KeepMaxFilesOnUSB (cfg w3)) = excess w2"
      using keep by (simp add: ex cfg3 nat_diff_distrib')
    have "excess w2 \<le> length (sort_key (\<lambda>f. st_mtime (snd f)) F)" by (simp add: ex)
    then have "delete_loop [0..<excess w2] (sort_key (\<lambda>f. st_mtime (snd f)) F) w4 =
        (Inr (), foldl step w4 (take (excess w2 - 0) (drop 0 (sort_key (\<lambda>f. st_mtime (snd f)) F))))"
      unfolding step_def by (rule delete_loop_fold)
    then show ?thesis using True k by (simp add: evict_def vs_def age)
  next
    case False
    then have "excess w2 = 0" using keep by (simp add: ex cfg3)
    then show ?thesis using False by (simp add: evict_def vs_def)
  qed
  define w5 where "w5 = foldl step w4 vs"
  have "\<exists>r6 w6. umount w5 = (r6, w6) \<and> usb w' = usb w6"
  proof -
    obtain r6 w6 where um: "umount w5 = (r6, w6)" by (cases "umount w5")
    have "usb w' = usb w6"
      using run body ev um by (cases r6) (auto simp: seq_def w5_def)
    then show ?thesis using um by blast
  qed
  then have usb': "usb w' = usb w5" using umount_usb by auto
  have pre: "mounted w4" "\<forall>c. \<not> raises w4 (clock w4) c" "names_distinct (usb w4)"
    using mt nr nd by (simp_all add: w4_def w3_def emit_def names_distinct_prune)
  have F4: "files_under SOURCE_DIR (usb w4) = F"
    by (simp add: w4_def w3_def emit_def files_under_def rel_files_prune F_def)
  have sub: "set vs \<subseteq> set (files_under SOURCE_DIR (usb w4))"
    unfolding F4 vs_def age by (metis set_sort set_take_subset)
  have dF: "distinct (map fst F)" unfolding F_def using nd by (rule distinct_files_under)
  have "distinct (map fst (sort_key (\<lambda>f. st_mtime (snd f)) F))"
    using dF by (rule distinct_by_age)
  then have "distinct (take (excess w2) (map fst (sort_key (\<lambda>f. st_mtime (snd f)) F)))"
    by (rule distinct_take)
  then have dv: "distinct (map fst vs)"
    unfolding vs_def age by (simp only: take_map)
  note fold = evict_fold[OF pre sub dv, folded step_def w5_def]
  have "files_under SOURCE_DIR (usb w5) =
      map (apfst ((@) SOURCE_DIR)) (filter (\<lambda>x. SOURCE_DIR @ fst x \<notin> fst ` set vs) (rel_files (usb w4)))"
    using fold by (simp add: files_under_def)
  also have "\<dots> = filter (\<lambda>x. fst x \<notin> fst ` set vs) (files_under SOURCE_DIR (usb w4))"
    by (simp add: filter_files_under)
  finally show "files_under SOURCE_DIR (usb w') =
           filter (\<lambda>x. fst x \<notin> fst ` set (take (excess w2) (by_age w2)))
             (files_under SOURCE_DIR (usb w2))"
    using usb' F4 by (simp add: vs_def F_def)
  have "map fst (rel_dirs (usb w4)) = map fst (filter (\<lambda>d. snd d \<noteq> 0) (rel_dirs (usb w2)))"
    by (simp add: w4_def w3_def emit_def rel_dirs_prune)
  then show "map fst (rel_dirs (usb w')) = map fst (filter (\<lambda>d. snd d \<noteq> 0) (rel_dirs (usb w2)))"
    using fold usb' by simp
qed

lemma kept_files:
  assumes "distinct (map fst F)"
  shows "mset (filter (\<lambda>x. fst x \<notin> fst ` set (take k (sort_key key F))) F) =
           mset (drop k (sort_key key F))"
proof -
  let ?S = "sort_key key F"
  let ?P = "\<lambda>x. fst x \<notin> fst ` set (take k ?S)"
  have "distinct (map fst ?S)" using assms by (rule distinct_by_age)
  then have "filter ?P ?S = drop k ?S" by (rule filter_take_drop)
  moreover have "mset (filter ?P F) = mset (filter ?P ?S)" by simp
  ultimately show ?thesis by simp
qed

lemma sweep_after_mount:
  assumes "check_and_delete_on_usb w = (r, w')" and "CopyCheckCycleTime (cfg w) \<noteq> 0"
    and "sweep_due w" and "exit_status w (clock w) Mount = 0"
  shows "\<exists>w2. sweep_mounted w2 = (r, w') \<and> mounted w2 \<and> usb w2 = usb w \<and> cfg w2 = cfg w \<and>
           raises w2 = raises w"
proof -
  define w2 where "w2 = (sweep_start w)\<lparr>mounted := True, clock := clock w + 1,
      trace := trace (sweep_start w) @ [Call Mount]\<rparr>"
  have m: "mount (sweep_start w) = (Inr (), w2)"
    using assms(4) by (simp add: mount_def Let_def emit_def tick_def sweep_start_def w2_def)
  have "sweep_mounted w2 = (r, w')"
    using assms(1,2,3) m by (simp add: check_and_delete_unfold seq_def)
  moreover have "mounted w2" "usb w2 = usb w" "cfg w2 = cfg w" "raises w2 = raises w"
    by (simp_all add: w2_def sweep_start_def emit_def)
  ultimately show ?thesis by blast
qed

lemma sweep_retention:
  assumes run: "check_and_delete_on_usb w = (r, w')" and nz: "CopyCheckCycleTime (cfg w) \<noteq> 0"
    and due: "sweep_due w" and ok: "exit_status w (clock w) Mount = 0"
    and nr: "\<forall>t c. \<not> raises w t c" and nd: "names_distinct (usb w)"
    and keep: "0 \<le> KeepMaxFilesOnUSB (cfg w)"
  shows "mset (files_under SOURCE_DIR (usb w')) = mset (drop (excess w) (by_age w))"
    and "length (files_under SOURCE_DIR (usb w')) =
           min (length (files_under SOURCE_DIR (usb w))) (nat (KeepMaxFilesOnUSB (cfg w)))"
    and "\<forall>e \<in> set (take (excess w) (by_age w)). \<forall>f \<in> set (files_under SOURCE_DIR (usb w')).
           st_mtime (snd e) \<le> st_mtime (snd f)"
    and "map fst (rel_dirs (usb w')) = map fst (filter (\<lambda>d. snd d \<noteq> 0) (rel_dirs (usb w)))"
proof -
  obtain w2 where w2: "sweep_mounted w2 = (r, w')" "mounted w2" "usb w2 = usb w" "cfg w2 = cfg w"
    "raises w2 = raises w"
    using sweep_after_mount[OF run nz due ok] by blast
  have same: "by_age w2 = by_age w" "excess w2 = excess w"
    using w2(3,4) by (simp_all add: by_age_def excess_def)
  have nr2: "\<forall>c. \<not> raises w2 (clock w2) c" using nr w2(5) by simp
  have nd2: "names_distinct (usb w2)" using nd w2(3) by simp
  have keep2: "0 \<le> KeepMaxFilesOnUSB (cfg w2)" using keep w2(4) by simp
  have files: "files_under SOURCE_DIR (usb w') =
      filter (\<lambda>x. fst x \<notin> fst ` set (take (excess w) (by_age w))) (files_under SOURCE_DIR (usb w))"
    using sweep_mounted_files(1)[OF w2(1,2) nr2 nd2 keep2] same w2(3) by simp
  show dirs: "map fst (rel_dirs (usb w')) = map fst (filter (\<lambda>d. snd d \<noteq> 0) (rel_dirs (usb w)))"
    using sweep_mounted_files(2)[OF w2(1,2) nr2 nd2 keep2] w2(3) by simp
  have dF: "distinct (map fst (files_under SOURCE_DIR (usb w)))"
    using nd by (rule distinct_files_under)
  show ms: "mset (files_under SOURCE_DIR (usb w')) = mset (drop (excess w) (by_age w))"
    unfolding files by_age_def using dF by (rule kept_files)
  have "length (files_under SOURCE_DIR (usb w')) = length (drop (excess w) (by_age w))"
    using ms by (metis size_mset)
  then show "length (files_under SOURCE_DIR (usb w')) =
           min (length (files_under SOURCE_DIR (usb w))) (nat (KeepMaxFilesOnUSB (cfg w)))"
    by (simp add: by_age_def excess_def)
  have st: "set (files_under SOURCE_DIR (usb w')) = set (drop (excess w) (by_age w))"
    using ms by (metis set_mset_mset)
  have "sorted (map (\<lambda>f. st_mtime (snd f)) (by_age w))" by (simp add: by_age_def)
  then show "\<forall>e \<in> set (take (excess w) (by_age w)). \<forall>f \<in> set (files_under SOURCE_DIR (usb w')).
           st_mtime (snd e) \<le> st_mtime (snd f)"
    unfolding st using sorted_take_drop[of "\<lambda>f. st_mtime (snd f)" "by_age w"] by blast
qed

text \<open>
  Claim C3, as amended. Take a sweep that is due on a device whose directories hold
  distinct names, with a ceiling \<open>N \<ge> 0\<close>, in which the mount succeeds and no call raises.
  Afterwards the files on the device are those that come after the first
  \<open>count - N\<close> in the order of ascending modification time: their number is the smaller
  of the count and \<open>N\<close>, and no file removed is newer than a file kept. The directories
  left are those that had an entry before the sweep: a directory without entries is
  removed, a directory whose files the sweep removes stays.
\<close>

theorem sweep_keeps_newest:
  "check_and_delete_on_usb w = (r, w') \<Longrightarrow> CopyCheckCycleTime (cfg w) \<noteq> 0 \<Longrightarrow> sweep_due w \<Longrightarrow>
   exit_status w (clock w) Mount = 0 \<Longrightarrow> (\<forall>t c. \<not> raises w t c) \<Longrightarrow> names_distinct (usb w) \<Longrightarrow>
   0 \<le> KeepMaxFilesOnUSB (cfg w) \<Longrightarrow>
   mset (files_under SOURCE_DIR (usb w')) = mset (drop (excess w) (by_age w))
   \<and> length (files_under SOURCE_DIR (usb w')) =
       min (length (files_under SOURCE_DIR (usb w))) (nat (KeepMaxFilesOnUSB (cfg w)))
   \<and> (\<forall>e \<in> set (take (excess w) (by_age w)). \<forall>f \<in> set (files_under SOURCE_DIR (usb w')).
         st_mtime (snd e) \<le> st_mtime (snd f))
   \<and> map fst (rel_dirs (usb w')) = map fst (filter (\<lambda>d. snd d \<noteq> 0) (rel_dirs (usb w)))"
  using sweep_retention by blast

lemma scenario_sweep_facts:
  "CopyCheckCycleTime (cfg scenario_sweep) \<noteq> 0" "sweep_due scenario_sweep"
  "exit_status scenario_sweep (clock scenario_sweep) Mount = 0"
  "\<forall>t c. \<not> raises scenario_sweep t c" "names_distinct (usb scenario_sweep)"
  "0 \<le> KeepMaxFilesOnUSB (cfg scenario_sweep)"
  "length (files_under SOURCE_DIR (usb scenario_sweep)) = 3"
  "nat (KeepMaxFilesOnUSB (cfg scenario_sweep)) = 2"
  "map fst (filter (\<lambda>d. snd d \<noteq> 0) (rel_dirs (usb scenario_sweep))) = [[''d'']]"
  by (simp_all add: scenario_sweep_def scenario_defs sweep_due_def files_under_def)

theorem sweep_keeps_newest_witness:
  "length (files_under SOURCE_DIR (usb (snd (check_and_delete_on_usb scenario_sweep)))) = 2
   \<and> map fst (rel_dirs (usb (snd (check_and_delete_on_usb scenario_sweep)))) = [[''d'']]"
proof -
  have run: "check_and_delete_on_usb scenario_sweep =
      (fst (check_and_delete_on_usb scenario_sweep), snd (check_and_delete_on_usb scenario_sweep))"
    by simp
  show ?thesis
    using sweep_keeps_newest [OF run scenario_sweep_facts(1-6)] scenario_sweep_facts(7-9)
    by simp
qed

lemma evict_all_collect:
  "get_all_file_entries_delete_empty_dirs (nothing_raises t) [''mnt'', ''usb_share'']
     [Dir ''d'' 50 [File ''f'' 100 100 ''x'']] =
     (None, [([''mnt'', ''usb_share'', ''d'', ''f''], File ''f'' 100 100 ''x'')],
      Some [Dir ''d'' 50 [File ''f'' 100 100 ''x'']], [])"
  by (simp add: get_all_file_entries_delete_empty_dirs.simps nothing_raises_def Let_def)

text \<open>
  Claim C3 as stated fails: the files are removed after the pass over the directories, so
  a directory whose only file the sweep removes is empty after the sweep, and is still
  there.
\<close>

theorem sweep_leaves_emptied_directory:
  "fst (check_and_delete_on_usb scenario_evict_all) = Inr ()
   \<and> usb (snd (check_and_delete_on_usb scenario_evict_all)) = [Dir ''d'' 50 []]
   \<and> has_empty_dir (usb (snd (check_and_delete_on_usb scenario_evict_all)))"
proof -
  have "fst (check_and_delete_on_usb scenario_evict_all) = Inr ()"
    "usb (snd (check_and_delete_on_usb scenario_evict_all)) = [Dir ''d'' 50 []]"
    using evict_all_collect
    by (simp_all add: check_and_delete_on_usb_def seq_def mount_def umount_def emit_def tick_def
        Let_def scenario_evict_all_def scenario_defs SOURCE_DIR_def remove_logged_def
        read_file_def)
  then show ?thesis by (simp add: has_empty_dir_def)
qed

end
